theory Spec2Isabelle
  imports Main "HOL-Library.Sublist"
begin

section \<open>The edit/document bridge: JavaScript objects with identity\<close>

text \<open>
  The bridge (\<open>section2edit\<close>, \<open>updateSection\<close> and their helpers) decides reuse with
  the strict equality \<open>===\<close> of JavaScript objects, so every object carries the address
  it was allocated at (\<open>obj_ref\<close>); \<open>===\<close> compares addresses. The bridge never
  mutates an object, it only allocates new ones, so an object is given as an immutable
  value labelled with its address. A field that may be absent (\<open>undefined\<close>) is an
  \<open>option\<close>. A text leaf \<open>{text: s}\<close> is an object whose \<open>obj_text\<close> is \<open>Some s\<close>.
\<close>

datatype js_error = TypeError | SlateError

record counts =
  wc_text :: nat
  wc_comments :: nat
  wc_missing :: nat

datatype obj = Obj (obj_ref: nat) (obj_type: "string option") (obj_id: "string option")
  (obj_name: "string option") (obj_folded: "bool option") (obj_words: "counts option")
  (obj_text: "string option") (obj_children: "obj list")

record doc_section =
  sect_ref :: nat
  parts :: "obj list"
  sect_words :: "counts option"

text \<open>
  The effects of the bridge: allocation of objects (\<open>next_ref\<close>), calls of the
  identifier generator \<open>nanoid\<close> and calls of the word counter \<open>wcElem\<close>. Both
  collaborators are imported from files that are not part of the sources; they are
  parameters of the functions below (\<open>nanoid k\<close> is the result of the \<open>k\<close>-th call).
\<close>

record heap =
  next_ref :: nat
  nanoid_calls :: nat
  wc_calls :: nat

definition new_ref :: "heap \<Rightarrow> nat \<times> heap" where
  "new_ref h = (next_ref h, h\<lparr>next_ref := Suc (next_ref h)\<rparr>)"

definition nanoid_next :: "(nat \<Rightarrow> string) \<Rightarrow> heap \<Rightarrow> string \<times> heap" where
  "nanoid_next nanoid h = (nanoid (nanoid_calls h), h\<lparr>nanoid_calls := Suc (nanoid_calls h)\<rparr>)"

text \<open>\<open>a === b\<close> on objects.\<close>

definition same_object :: "obj \<Rightarrow> obj \<Rightarrow> bool" where
  "same_object a b = (obj_ref a = obj_ref b)"

text \<open>\<open>xs.map(f)\<close> where \<open>f\<close> allocates.\<close>

fun map_heap :: "('a \<Rightarrow> heap \<Rightarrow> 'b \<times> heap) \<Rightarrow> 'a list \<Rightarrow> heap \<Rightarrow> 'b list \<times> heap" where
  "map_heap f [] h = ([], h)"
| "map_heap f (x # xs) h =
     (case f x h of (y, h1) \<Rightarrow> (case map_heap f xs h1 of (ys, h2) \<Rightarrow> (y # ys, h2)))"

text \<open>\<open>xs.map(f)\<close> where \<open>f\<close> allocates and may throw.\<close>

fun map_js :: "('a \<Rightarrow> heap \<Rightarrow> js_error + 'b \<times> heap) \<Rightarrow> 'a list \<Rightarrow> heap \<Rightarrow> js_error + 'b list \<times> heap" where
  "map_js f [] h = Inr ([], h)"
| "map_js f (x # xs) h =
     (case f x h of
        Inl e \<Rightarrow> Inl e
      | Inr (y, h1) \<Rightarrow>
          (case map_js f xs h1 of Inl e \<Rightarrow> Inl e | Inr (ys, h2) \<Rightarrow> Inr (y # ys, h2)))"

subsection \<open>Doc --> Slate: \<open>section2edit\<close>\<close>

text \<open>\<open>if(type === "br") return {...elem, type: "p"}; return elem\<close>\<close>

definition elem2edit :: "obj \<Rightarrow> heap \<Rightarrow> obj \<times> heap" where
  "elem2edit elem h =
     (if obj_type elem = Some ''br''
      then (case new_ref h of (r, h1) \<Rightarrow>
              (Obj r (Some ''p'') (obj_id elem) (obj_name elem) (obj_folded elem)
                 (obj_words elem) (obj_text elem) (obj_children elem), h1))
      else (elem, h))"

text \<open>The header literal \<open>{type: t, id: nanoid(), children: [{text: name ?? ""}]}\<close>.\<close>

definition header :: "(nat \<Rightarrow> string) \<Rightarrow> string \<Rightarrow> string option \<Rightarrow> heap \<Rightarrow> obj \<times> heap" where
  "header nanoid t name h =
     (case nanoid_next nanoid h of (i, h1) \<Rightarrow>
      case new_ref h1 of (l, h2) \<Rightarrow>
      case new_ref h2 of (r, h3) \<Rightarrow>
        (Obj r (Some t) (Some i) None None None None
           [Obj l None None None None None (Some (case name of None \<Rightarrow> [] | Some n \<Rightarrow> n)) []], h3))"

definition scene2edit :: "(nat \<Rightarrow> string) \<Rightarrow> obj \<Rightarrow> heap \<Rightarrow> obj \<times> heap" where
  "scene2edit nanoid scene h =
     (case header nanoid ''hscene'' (obj_name scene) h of (head, h1) \<Rightarrow>
      case map_heap elem2edit (obj_children scene) h1 of (cs, h2) \<Rightarrow>
      case new_ref h2 of (r, h3) \<Rightarrow>
        (Obj r (Some ''scene'') (obj_id scene) (obj_name scene) (obj_folded scene) None None
           (head # cs), h3))"

definition part2edit :: "(nat \<Rightarrow> string) \<Rightarrow> obj \<Rightarrow> heap \<Rightarrow> obj \<times> heap" where
  "part2edit nanoid part h =
     (case header nanoid ''hpart'' (obj_name part) h of (head, h1) \<Rightarrow>
      case map_heap (scene2edit nanoid) (obj_children part) h1 of (cs, h2) \<Rightarrow>
      case new_ref h2 of (r, h3) \<Rightarrow>
        (Obj r (Some ''part'') (obj_id part) (obj_name part) (obj_folded part) None None
           (head # cs), h3))"

definition section2edit :: "(nat \<Rightarrow> string) \<Rightarrow> doc_section \<Rightarrow> heap \<Rightarrow> obj list \<times> heap" where
  "section2edit nanoid sect h = map_heap (part2edit nanoid) (parts sect) h"

subsection \<open>Slate --> Doc: \<open>updateSection\<close>\<close>

text \<open>
  Modelled from the spec: \<open>section2lookup\<close> (imported from \<open>document/util\<close>, which is
  not among the sources), the lookup builder \<open>buildLookup(section) -> map(id -> node)\<close>
  "from previous persisted node id to node". It is a JavaScript \<open>Map\<close> filled in document
  order (a later \<open>set\<close> of a key replaces an earlier one); \<open>has\<close> and \<open>get\<close> read the
  association list from the most recent entry.
\<close>

definition scene_entries :: "obj \<Rightarrow> (string option \<times> obj) list" where
  "scene_entries scene = (obj_id scene, scene) # map (\<lambda>e. (obj_id e, e)) (obj_children scene)"

definition part_entries :: "obj \<Rightarrow> (string option \<times> obj) list" where
  "part_entries part = (obj_id part, part) # concat (map scene_entries (obj_children part))"

definition section_entries :: "doc_section \<Rightarrow> (string option \<times> obj) list" where
  "section_entries sect = concat (map part_entries (parts sect))"

definition section2lookup :: "doc_section \<Rightarrow> (string option \<times> obj) list" where
  "section2lookup sect = rev (section_entries sect)"

text \<open>
  \<open>const lookup = section ? section2lookup(section) : {}\<close>: the lookup is either a
  \<open>Map\<close> or the plain object \<open>{}\<close>, which has no method \<open>has\<close>.
\<close>

datatype lookup = PlainObject | MapObject "(string option \<times> obj) list"

definition cmpType :: "obj \<Rightarrow> obj \<Rightarrow> bool" where
  "cmpType elem orig = (obj_id elem = obj_id orig \<and> obj_type elem = obj_type orig)"

definition cmpTypeName :: "obj \<Rightarrow> obj \<Rightarrow> bool" where
  "cmpTypeName elem orig = (cmpType elem orig \<and> obj_name elem = obj_name orig)"

text \<open>
  \<open>cmpList(a, b)\<close>: equal lengths and \<open>===\<close> at every index. Its first test
  \<open>a === b\<close> (the same array) implies the other two, so it does not change the result.
\<close>

definition cmpList :: "obj list \<Rightarrow> obj list \<Rightarrow> bool" where
  "cmpList a b = (length a = length b \<and> list_all2 same_object a b)"

definition cmpChildren :: "obj \<Rightarrow> obj \<Rightarrow> bool" where
  "cmpChildren elem orig = cmpList (obj_children elem) (obj_children orig)"

definition cmpNamedGroup :: "obj \<Rightarrow> obj \<Rightarrow> bool" where
  "cmpNamedGroup elem orig =
     (cmpTypeName elem orig \<and> obj_folded elem = obj_folded orig \<and> cmpChildren elem orig)"

text \<open>The rebuilt object \<open>{...elem, words: wcElem(elem)}\<close>.\<close>

definition rebuild :: "(obj \<Rightarrow> counts) \<Rightarrow> obj \<Rightarrow> heap \<Rightarrow> obj \<times> heap" where
  "rebuild wcElem elem h =
     (case new_ref h of (r, h1) \<Rightarrow>
        (Obj r (obj_type elem) (obj_id elem) (obj_name elem) (obj_folded elem)
           (Some (wcElem elem)) (obj_text elem) (obj_children elem),
         h1\<lparr>wc_calls := Suc (wc_calls h1)\<rparr>))"

text \<open>
  \<open>checkClean\<close>. \<open>lookup.has(id)\<close> throws on the plain object; \<open>x.children[0].text\<close>
  throws when \<open>x\<close> has no child.
\<close>

definition checkClean :: "(obj \<Rightarrow> counts) \<Rightarrow> obj \<Rightarrow> lookup \<Rightarrow> heap \<Rightarrow> js_error + obj \<times> heap" where
  "checkClean wcElem elem lookup h =
     (case lookup of
        PlainObject \<Rightarrow> Inl TypeError
      | MapObject m \<Rightarrow>
          (case map_of m (obj_id elem) of
             None \<Rightarrow> Inr (rebuild wcElem elem h)
           | Some orig \<Rightarrow>
               if same_object elem orig then Inr (orig, h)
               else if cmpType elem orig then
                 (if obj_type elem = Some ''part'' \<or> obj_type elem = Some ''scene'' then
                    (if cmpNamedGroup elem orig then Inr (orig, h)
                     else Inr (rebuild wcElem elem h))
                  else if obj_type elem = Some ''br'' then Inr (orig, h)
                  else
                    (case obj_children elem of
                       [] \<Rightarrow> Inl TypeError
                     | e0 # _ \<Rightarrow>
                         (case obj_children orig of
                            [] \<Rightarrow> Inl TypeError
                          | o0 # _ \<Rightarrow>
                              if obj_text e0 = obj_text o0 then Inr (orig, h)
                              else Inr (rebuild wcElem elem h))))
               else Inr (rebuild wcElem elem h)))"

definition edit2paragraph :: "(obj \<Rightarrow> counts) \<Rightarrow> obj \<Rightarrow> lookup \<Rightarrow> heap \<Rightarrow> js_error + obj \<times> heap" where
  "edit2paragraph wcElem elem lookup h = checkClean wcElem elem lookup h"

text \<open>\<open>const [head, ...paragraphs] = children\<close>: the first child is dropped.\<close>

definition edit2scene :: "(obj \<Rightarrow> counts) \<Rightarrow> obj \<Rightarrow> lookup \<Rightarrow> heap \<Rightarrow> js_error + obj \<times> heap" where
  "edit2scene wcElem scene lookup h =
     (case map_js (\<lambda>p. edit2paragraph wcElem p lookup) (tl (obj_children scene)) h of
        Inl e \<Rightarrow> Inl e
      | Inr (ps, h1) \<Rightarrow>
          (case new_ref h1 of (r, h2) \<Rightarrow>
             checkClean wcElem
               (Obj r (Some ''scene'') (obj_id scene) (obj_name scene) (obj_folded scene)
                  None None ps) lookup h2))"

definition edit2part :: "(obj \<Rightarrow> counts) \<Rightarrow> obj \<Rightarrow> lookup \<Rightarrow> heap \<Rightarrow> js_error + obj \<times> heap" where
  "edit2part wcElem part lookup h =
     (case map_js (\<lambda>s. edit2scene wcElem s lookup) (tl (obj_children part)) h of
        Inl e \<Rightarrow> Inl e
      | Inr (ss, h1) \<Rightarrow>
          (case new_ref h1 of (r, h2) \<Rightarrow>
             checkClean wcElem
               (Obj r (Some ''part'') (obj_id part) (obj_name part) (obj_folded part)
                  None None ss) lookup h2))"

text \<open>
  \<open>updateSection(buffer, section)\<close>; \<open>section\<close> is \<open>None\<close> for \<open>null\<close> or
  \<open>undefined\<close>, where \<open>section.parts\<close> throws.
\<close>

definition updateSection :: "(obj \<Rightarrow> counts) \<Rightarrow> obj list \<Rightarrow> doc_section option \<Rightarrow> heap \<Rightarrow> js_error + doc_section \<times> heap" where
  "updateSection wcElem buffer sect h =
     (case map_js (\<lambda>part. edit2part wcElem part
              (case sect of None \<Rightarrow> PlainObject | Some s \<Rightarrow> MapObject (section2lookup s)))
            buffer h of
        Inl e \<Rightarrow> Inl e
      | Inr (updated, h1) \<Rightarrow>
          (case sect of
             None \<Rightarrow> Inl TypeError
           | Some s \<Rightarrow>
               if cmpList updated (parts s) then Inr (s, h1)
               else
                 (case new_ref h1 of (t, h2) \<Rightarrow>
                  case new_ref h2 of (r, h3) \<Rightarrow>
                    Inr (s\<lparr>sect_ref := r, parts := updated,
                            sect_words := Some (wcElem
                              (Obj t (Some ''sect'') None None None None None updated))\<rparr>,
                         h3\<lparr>wc_calls := Suc (wc_calls h3)\<rparr>))))"

subsection \<open>Well-formed persisted sections and sample documents\<close>

text \<open>
  The data model of a persisted section: identifiers are pairwise distinct over all
  parts, scenes and paragraphs, a part has type \<open>part\<close>, a scene has type \<open>scene\<close>;
  \<open>no_legacy_breaks\<close> says that no paragraph is a legacy \<open>br\<close> node.
\<close>

definition wf_section :: "doc_section \<Rightarrow> bool" where
  "wf_section sect =
     (distinct (map fst (section_entries sect)) \<and>
      (\<forall>p \<in> set (parts sect). obj_type p = Some ''part'' \<and>
         (\<forall>s \<in> set (obj_children p). obj_type s = Some ''scene'')))"

definition no_legacy_breaks :: "doc_section \<Rightarrow> bool" where
  "no_legacy_breaks sect =
     (\<forall>p \<in> set (parts sect). \<forall>s \<in> set (obj_children p). \<forall>e \<in> set (obj_children s).
        obj_type e \<noteq> Some ''br'')"

text \<open>\<open>undoes F x y\<close>: committing \<open>y\<close> with \<open>F\<close> returns \<open>x\<close> and counts no words.\<close>

definition undoes :: "('b \<Rightarrow> heap \<Rightarrow> js_error + 'a \<times> heap) \<Rightarrow> 'a \<Rightarrow> 'b \<Rightarrow> bool" where
  "undoes F x y = (\<forall>h2. \<exists>h3. F y h2 = Inr (x, h3) \<and> wc_calls h3 = wc_calls h2)"

definition leaf :: "nat \<Rightarrow> string \<Rightarrow> obj" where
  "leaf r s = Obj r None None None None None (Some s) []"

definition wc0 :: "obj \<Rightarrow> counts" where
  "wc0 e = \<lparr>wc_text = length (obj_children e), wc_comments = 0, wc_missing = 0\<rparr>"

definition nanoid0 :: "nat \<Rightarrow> string" where
  "nanoid0 k = CHR ''n'' # replicate k (CHR ''x'')"

definition heap0 :: heap where
  "heap0 = \<lparr>next_ref = 100, nanoid_calls = 0, wc_calls = 0\<rparr>"

definition one_word :: counts where
  "one_word = \<lparr>wc_text = 1, wc_comments = 0, wc_missing = 0\<rparr>"

text \<open>A section of one part with one scene that holds one paragraph of type \<open>t\<close>.\<close>

definition small_section :: "string \<Rightarrow> doc_section" where
  "small_section t =
     \<lparr>sect_ref = 1,
      parts = [Obj 2 (Some ''part'') (Some ''id-part'') (Some ''One'') None (Some one_word) None
                [Obj 3 (Some ''scene'') (Some ''id-scene'') (Some ''Dawn'') None (Some one_word) None
                  [Obj 4 (Some t) (Some ''id-para'') None None (Some one_word) None
                    [leaf 5 ''hi'']]]],
      sect_words = Some one_word\<rparr>"

text \<open>
  A stored paragraph of two text leaves, and the same paragraph after an edit of its
  second leaf (a new object; the untouched first leaf is shared).
\<close>

definition stored_para :: obj where
  "stored_para = Obj 4 (Some ''p'') (Some ''id-para'') None None (Some one_word) None
     [leaf 5 ''Hello '', leaf 6 ''world'']"

definition edited_para :: obj where
  "edited_para = Obj 14 (Some ''p'') (Some ''id-para'') None None (Some one_word) None
     [leaf 5 ''Hello '', leaf 16 ''brave new world'']"

section \<open>The editable tree\<close>

text \<open>
  The editor holds a tree of nodes. A node is a text leaf or an element with children;
  both are JavaScript objects that may carry the properties \<open>type\<close>, \<open>id\<close>, \<open>name\<close>
  and \<open>folded\<close> (absent properties are \<open>None\<close>). The editor itself is the root: it
  is written as an element without properties and is the node at the empty path.
\<close>

type_synonym path = "nat list"

record props =
  ptype :: "string option"
  pid :: "string option"
  pname :: "string option"
  pfolded :: "bool option"

datatype node = Text props string | Element props "node list"

definition no_props :: props where
  "no_props = \<lparr>ptype = None, pid = None, pname = None, pfolded = None\<rparr>"

fun node_props :: "node \<Rightarrow> props" where
  "node_props (Text a s) = a"
| "node_props (Element a cs) = a"

fun node_children :: "node \<Rightarrow> node list" where
  "node_children (Text a s) = []"
| "node_children (Element a cs) = cs"

fun isText :: "node \<Rightarrow> bool" where
  "isText (Text a s) = True"
| "isText (Element a cs) = False"

definition node_type :: "node \<Rightarrow> string option" where
  "node_type n = ptype (node_props n)"

text \<open>\<open>Node.string\<close>: the concatenated text of a node.\<close>

fun node_string :: "node \<Rightarrow> string" where
  "node_string (Text a s) = s"
| "node_string (Element a cs) = concat (map node_string cs)"

text \<open>\<open>Node.get\<close>: the node at a path, if there is one.\<close>

fun node_get :: "node \<Rightarrow> path \<Rightarrow> node option" where
  "node_get n [] = Some n"
| "node_get (Text a s) (i # p) = None"
| "node_get (Element a cs) (i # p) = (if i < length cs then node_get (cs ! i) p else None)"

text \<open>The child list of the node at a path, replaced by its image under \<open>f\<close>.\<close>

fun modify_children :: "path \<Rightarrow> (node list \<Rightarrow> node list) \<Rightarrow> node \<Rightarrow> node" where
  "modify_children p f (Text a s) = Text a s"
| "modify_children [] f (Element a cs) = Element a (f cs)"
| "modify_children (i # p) f (Element a cs) =
     (if i < length cs then Element a (cs[i := modify_children p f (cs ! i)]) else Element a cs)"

text \<open>The node at a non-empty path, replaced by the nodes \<open>f\<close> makes of it.\<close>

definition splice_at :: "path \<Rightarrow> (node \<Rightarrow> node list) \<Rightarrow> node \<Rightarrow> node" where
  "splice_at path f root =
     (if path = [] then root
      else modify_children (butlast path)
             (\<lambda>cs. if last path < length cs
                   then take (last path) cs @ f (cs ! last path) @ drop (Suc (last path)) cs
                   else cs) root)"

subsection \<open>The tree-editing primitives of the host editor\<close>

text \<open>
  Modelled from the spec: the low-level tree-editing primitives of the host editing
  substrate (the \<open>slate\<close> library, which is not part of the sources): set-properties,
  remove, wrap, unwrap, lift and merge of the node at a path, and the previous sibling.
  Each is given by its effect on the tree; at a path that names no node it changes
  nothing. \<open>liftNodes\<close> moves a node out of its parent, splitting the parent when the
  node is neither its first nor its last child (both halves keep the parent's
  properties) and removing the parent when the node was its only child. \<open>mergeNodes\<close>
  appends the children of the node to those of its previous sibling and removes the
  node; the previous sibling keeps its own properties (the library's special treatment
  of a merge target that holds no text is not part of this model).
\<close>

fun set_props :: "(props \<Rightarrow> props) \<Rightarrow> node \<Rightarrow> node" where
  "set_props upd (Text a s) = Text (upd a) s"
| "set_props upd (Element a cs) = Element (upd a) cs"

definition setNodes :: "(props \<Rightarrow> props) \<Rightarrow> path \<Rightarrow> node \<Rightarrow> node" where
  "setNodes upd path root = splice_at path (\<lambda>n. [set_props upd n]) root"

definition removeNodes :: "path \<Rightarrow> node \<Rightarrow> node" where
  "removeNodes path root = splice_at path (\<lambda>n. []) root"

definition wrapNodes :: "string \<Rightarrow> path \<Rightarrow> node \<Rightarrow> node" where
  "wrapNodes t path root =
     splice_at path (\<lambda>n. [Element (no_props\<lparr>ptype := Some t\<rparr>) [n]]) root"

definition unwrapNodes :: "path \<Rightarrow> node \<Rightarrow> node" where
  "unwrapNodes path root =
     splice_at path (\<lambda>n. case n of Text a s \<Rightarrow> [n]
                             | Element a cs \<Rightarrow> if cs = [] then [n] else cs) root"

definition lift_child :: "nat \<Rightarrow> node \<Rightarrow> node list" where
  "lift_child i parent =
     (case parent of
        Text a s \<Rightarrow> [parent]
      | Element a cs \<Rightarrow>
          if length cs \<le> i then [parent]
          else if length cs = 1 then [cs ! i]
          else if i = 0 then [cs ! i, Element a (tl cs)]
          else if i = length cs - 1 then [Element a (butlast cs), cs ! i]
          else [Element a (take i cs), cs ! i, Element a (drop (Suc i) cs)])"

definition liftNodes :: "path \<Rightarrow> node \<Rightarrow> node" where
  "liftNodes path root =
     (if length path < 2 then root else splice_at (butlast path) (lift_child (last path)) root)"

definition previous :: "path \<Rightarrow> node \<Rightarrow> (node \<times> path) option" where
  "previous path root =
     (if path = [] \<or> last path = 0 then None
      else (case node_get root (butlast path @ [last path - 1]) of
              None \<Rightarrow> None
            | Some n \<Rightarrow> Some (n, butlast path @ [last path - 1])))"

definition merge_into :: "node \<Rightarrow> node \<Rightarrow> node option" where
  "merge_into prev n =
     (case (prev, n) of
        (Element a xs, Element b ys) \<Rightarrow> Some (Element a (xs @ ys))
      | (Text a s, Text b t) \<Rightarrow> Some (Text a (s @ t))
      | _ \<Rightarrow> None)"

definition mergeNodes :: "path \<Rightarrow> node \<Rightarrow> js_error + node" where
  "mergeNodes path root =
     (case previous path root of
        None \<Rightarrow> Inr root
      | Some (prev, ppath) \<Rightarrow>
          (case node_get root path of
             None \<Rightarrow> Inr root
           | Some n \<Rightarrow>
               (case merge_into prev n of
                  None \<Rightarrow> Inl SlateError
                | Some m \<Rightarrow> Inr (removeNodes path (splice_at ppath (\<lambda>x. [m]) root)))))"

text \<open>
  Modelled from the spec: the normalizer of the host editor that \<open>withFixNesting\<close>
  wraps (the library's built-in constraints; not part of the sources): an element
  without children gets an empty text child; the children of the editor, and of an
  element whose first child is an element, are elements only, those of an element whose
  first child is a text are texts only (children of the other kind are removed); of two
  adjacent texts with the same properties one is made, and an empty text next to
  another text is removed.
\<close>

fun fix_texts :: "node list \<Rightarrow> node list" where
  "fix_texts (Text a s # Text b t # rest) =
     (if a = b then fix_texts (Text a (s @ t) # rest)
      else if s = [] then fix_texts (Text b t # rest)
      else if t = [] then fix_texts (Text a s # rest)
      else Text a s # fix_texts (Text b t # rest))"
| "fix_texts (x # rest) = x # fix_texts rest"
| "fix_texts [] = []"

definition core_children :: "bool \<Rightarrow> node list \<Rightarrow> node list" where
  "core_children is_editor cs =
     (if cs = [] then (if is_editor then [] else [Text no_props []])
      else if \<not> is_editor \<and> isText (hd cs) then fix_texts (filter isText cs)
      else filter (\<lambda>c. \<not> isText c) cs)"

definition core_normalizeNode :: "path \<Rightarrow> node \<Rightarrow> js_error + node" where
  "core_normalizeNode path root = Inr (modify_children path (core_children (path = [])) root)"

subsection \<open>\<open>withFixNesting\<close>\<close>

text \<open>\<open>if(!check(...)) return\<close>: a failed check ends the normalization of this node.\<close>

definition and_then :: "js_error + bool \<times> node \<Rightarrow> (node \<Rightarrow> js_error + node) \<Rightarrow> js_error + node" where
  "and_then c k = (case c of Inl e \<Rightarrow> Inl e | Inr (ok, r) \<Rightarrow> if ok then k r else Inr r)"

text \<open>\<open>doFold\<close>, on the tree.\<close>

definition doFold :: "node \<Rightarrow> path \<Rightarrow> bool \<Rightarrow> node \<Rightarrow> node" where
  "doFold node path folded root =
     (if (case pfolded (node_props node) of None \<Rightarrow> False | Some b \<Rightarrow> b) = folded then root
      else setNodes (\<lambda>a. a\<lparr>pfolded := Some folded\<rparr>) path root)"

definition checkParent :: "node \<Rightarrow> path \<Rightarrow> string \<Rightarrow> node \<Rightarrow> js_error + bool \<times> node" where
  "checkParent node path t root =
     (case node_get root (butlast path) of
        None \<Rightarrow> Inl SlateError
      | Some parent \<Rightarrow>
          if node_type parent = Some t then Inr (True, root)
          else Inr (False, wrapNodes t path root))"

definition checkIsFirst :: "node \<Rightarrow> path \<Rightarrow> string \<Rightarrow> node \<Rightarrow> js_error + bool \<times> node" where
  "checkIsFirst node path t root =
     (if last path = 0 then Inr (True, root)
      else Inr (False, liftNodes path (wrapNodes t path root)))"

definition updateParentName :: "node \<Rightarrow> path \<Rightarrow> node \<Rightarrow> js_error + bool \<times> node" where
  "updateParentName node path root =
     (case node_get root (butlast path) of
        None \<Rightarrow> Inl SlateError
      | Some parent \<Rightarrow>
          if pname (node_props parent) = Some (node_string node) then Inr (True, root)
          else Inr (False, setNodes (\<lambda>a. a\<lparr>pname := Some (node_string node)\<rparr>) (butlast path) root))"

definition checkBlockHeader :: "node \<Rightarrow> path \<Rightarrow> string \<Rightarrow> node \<Rightarrow> js_error + bool \<times> node" where
  "checkBlockHeader block path t root =
     (case node_children block of
        [] \<Rightarrow> Inr (False, removeNodes path root)
      | first # rest \<Rightarrow>
          if node_type first = Some t then Inr (True, root)
          else
            (case previous path root of
               None \<Rightarrow> Inr (True, root)
             | Some (prev, ppath) \<Rightarrow>
                 if node_type prev \<noteq> node_type block then Inr (True, root)
                 else
                   (case mergeNodes path
                           (doFold block path False (doFold prev ppath False root)) of
                      Inl e \<Rightarrow> Inl e
                    | Inr r \<Rightarrow> Inr (False, r))))"

text \<open>\<open>block.children[0].type\<close> throws when \<open>block\<close> is a text or has no child.\<close>

definition checkFirstHeader :: "node \<Rightarrow> path \<Rightarrow> string \<Rightarrow> node \<Rightarrow> js_error + bool \<times> node" where
  "checkFirstHeader block path t root =
     (case node_children block of
        [] \<Rightarrow> Inl TypeError
      | first # rest \<Rightarrow>
          if node_type first = Some t then Inr (True, root)
          else Inr (False, setNodes (\<lambda>a. a\<lparr>ptype := Some t\<rparr>) (path @ [0]) root))"

text \<open>
  \<open>editor.normalizeNode\<close> of \<open>withFixNesting\<close>; \<open>inner\<close> is the normalizer it wraps.
  The entry \<open>[node, path]\<close> is the node at \<open>path\<close>; the editor is the node at \<open>[]\<close>.
  The host calls it for nodes of the tree only: at a path that names no node nothing
  happens. The \<open>switch\<close> on \<open>node.type\<close> takes its \<open>default\<close> branch for every
  type other than the four named ones, and for a node without a type.
\<close>

definition normalizeNode :: "(path \<Rightarrow> node \<Rightarrow> js_error + node) \<Rightarrow> path \<Rightarrow> node \<Rightarrow> js_error + node" where
  "normalizeNode inner path root =
     (case node_get root path of
        None \<Rightarrow> Inr root
      | Some node \<Rightarrow>
          if isText node then inner path root
          else if path = [] then
            (case node_get root [0, 0] of
               None \<Rightarrow> Inl SlateError
             | Some first \<Rightarrow>
                 if node_type first = Some ''hpart'' then inner path root
                 else Inr (setNodes (\<lambda>a. a\<lparr>ptype := Some ''hpart''\<rparr>) [0, 0]
                        (if node_type first = Some ''scene'' then unwrapNodes [0, 0] root
                         else root)))
          else if node_type node = Some ''hpart'' then
            and_then (checkParent node path ''part'' root) (\<lambda>r1.
            and_then (checkIsFirst node path ''part'' r1) (\<lambda>r2.
            and_then (updateParentName node path r2) (inner path)))
          else if node_type node = Some ''hscene'' then
            and_then (checkParent node path ''scene'' root) (\<lambda>r1.
            and_then (checkIsFirst node path ''scene'' r1) (\<lambda>r2.
            and_then (updateParentName node path r2) (inner path)))
          else if node_type node = Some ''part'' then
            (if length path > 1 then Inr (liftNodes path root)
             else
               and_then (checkBlockHeader node path ''hpart'' root) (\<lambda>r1.
                 if length (node_children node) > 1
                 then and_then (checkFirstHeader (node_children node ! 1) (path @ [1]) ''hscene'' r1)
                        (inner path)
                 else inner path r1))
          else if node_type node = Some ''scene'' then
            (if length path < 2 then Inr (wrapNodes ''part'' path root)
             else if length path > 2 then Inr (liftNodes path root)
             else and_then (checkBlockHeader node path ''hscene'' root) (inner path))
          else and_then (checkParent node path ''scene'' root) (inner path))"

subsection \<open>Normalization to a fixed point\<close>

text \<open>All paths of a tree, parents before children (document order).\<close>

fun paths_of :: "node \<Rightarrow> path list" and paths_from :: "nat \<Rightarrow> node list \<Rightarrow> path list" where
  "paths_of (Text a s) = [[]]"
| "paths_of (Element a cs) = [] # paths_from 0 cs"
| "paths_from i [] = []"
| "paths_from i (c # cs) = map ((#) i) (paths_of c) @ paths_from (Suc i) cs"

text \<open>
  Modelled from the spec: the normalization loop of the host editor. Every mutation
  triggers normalization of the affected nodes bottom-up (a node after its
  descendants, the editor last), and a repair re-triggers it until the tree is stable.
  One round applies the normalizer at the first path, children before parents, where
  it changes the tree; the loop ends when no path changes the tree. The number of
  rounds is bounded by the fuel: \<open>Inr None\<close> means that the fuel ran out.
\<close>

fun first_repair :: "(path \<Rightarrow> node \<Rightarrow> js_error + node) \<Rightarrow> node \<Rightarrow> path list \<Rightarrow> js_error + node option" where
  "first_repair nn root [] = Inr None"
| "first_repair nn root (p # ps) =
     (case nn p root of
        Inl e \<Rightarrow> Inl e
      | Inr r \<Rightarrow> if r = root then first_repair nn root ps else Inr (Some r))"

fun normalize :: "nat \<Rightarrow> (path \<Rightarrow> node \<Rightarrow> js_error + node) \<Rightarrow> node \<Rightarrow> js_error + node option" where
  "normalize 0 nn root = Inr None"
| "normalize (Suc fuel) nn root =
     (case first_repair nn root (rev (paths_of root)) of
        Inl e \<Rightarrow> Inl e
      | Inr None \<Rightarrow> Inr (Some root)
      | Inr (Some r) \<Rightarrow> normalize fuel nn r)"

subsection \<open>\<open>withIDs\<close>\<close>

text \<open>
  The loop of \<open>withIDs\<close> over \<open>Editor.nodes(editor, {at: [], match: ...})\<close>: every
  element of the tree other than the editor, in document order. The state is the set
  \<open>ids\<close> of identifiers seen so far (a list) and the number of calls of \<open>nanoid\<close>;
  \<open>nanoid k\<close> is the identifier the \<open>k\<close>-th call returns. \<open>!node.id\<close> holds for a
  missing and for an empty identifier. \<open>Transforms.setNodes(editor, {id}, {at: path})\<close>
  changes the identifier of the visited element only, so the elements visited later
  are those of the tree the loop started with.
\<close>

fun assign_id :: "(nat \<Rightarrow> string) \<Rightarrow> props \<Rightarrow> string list \<times> nat \<Rightarrow> props \<times> string list \<times> nat" where
  "assign_id nanoid a (ids, k) =
     (case pid a of
        None \<Rightarrow> (a\<lparr>pid := Some (nanoid k)\<rparr>, nanoid k # ids, Suc k)
      | Some i \<Rightarrow>
          if i = [] \<or> i \<in> set ids then (a\<lparr>pid := Some (nanoid k)\<rparr>, nanoid k # ids, Suc k)
          else (a, i # ids, k))"

fun fix_ids :: "(nat \<Rightarrow> string) \<Rightarrow> node \<Rightarrow> string list \<times> nat \<Rightarrow> node \<times> string list \<times> nat"
  and fix_ids_list :: "(nat \<Rightarrow> string) \<Rightarrow> node list \<Rightarrow> string list \<times> nat \<Rightarrow> node list \<times> string list \<times> nat" where
  "fix_ids nanoid (Text a s) st = (Text a s, st)"
| "fix_ids nanoid (Element a cs) st =
     (case assign_id nanoid a st of (a', st1) \<Rightarrow>
      case fix_ids_list nanoid cs st1 of (cs', st2) \<Rightarrow> (Element a' cs', st2))"
| "fix_ids_list nanoid [] st = ([], st)"
| "fix_ids_list nanoid (c # cs) st =
     (case fix_ids nanoid c st of (c', st1) \<Rightarrow>
      case fix_ids_list nanoid cs st1 of (cs', st2) \<Rightarrow> (c' # cs', st2))"

text \<open>
  \<open>editor.normalizeNode\<close> of \<open>withIDs\<close>, on the tree and the number of identifiers
  generated so far: at the editor (the empty path) the identifiers are enforced, then
  the wrapped normalizer runs; at any other path only the wrapped normalizer runs.
\<close>

definition enforce_ids :: "(nat \<Rightarrow> string) \<Rightarrow> node \<times> nat \<Rightarrow> node \<times> nat" where
  "enforce_ids nanoid st =
     (case st of (root, k) \<Rightarrow>
        (case fix_ids_list nanoid (node_children root) ([], k) of
           (cs, ids, k') \<Rightarrow> (Element (node_props root) cs, k')))"

definition withIDs_normalizeNode :: "(nat \<Rightarrow> string) \<Rightarrow> (path \<Rightarrow> node \<Rightarrow> js_error + node) \<Rightarrow> path \<Rightarrow> node \<times> nat \<Rightarrow> js_error + node \<times> nat" where
  "withIDs_normalizeNode nanoid inner path st =
     (if length path > 0
      then (case inner path (fst st) of Inl e \<Rightarrow> Inl e | Inr r \<Rightarrow> Inr (r, snd st))
      else (case enforce_ids nanoid st of (root, k) \<Rightarrow>
              (case inner path root of Inl e \<Rightarrow> Inl e | Inr r \<Rightarrow> Inr (r, k))))"

text \<open>The identifiers of the elements of a tree (the editor is not one), in document order.\<close>

fun element_ids :: "node \<Rightarrow> string option list" and element_ids_list :: "node list \<Rightarrow> string option list" where
  "element_ids (Text a s) = []"
| "element_ids (Element a cs) = pid a # element_ids_list cs"
| "element_ids_list [] = []"
| "element_ids_list (c # cs) = element_ids c @ element_ids_list cs"

text \<open>
  The identifier generator returns non-empty values that were never present in the
  tree: none is an identifier of an element of the tree, and no two calls return the
  same value.
\<close>

definition fresh_generator :: "(nat \<Rightarrow> string) \<Rightarrow> node \<Rightarrow> bool" where
  "fresh_generator nanoid root =
     (inj nanoid \<and> (\<forall>k. nanoid k \<noteq> []) \<and>
      (\<forall>k. Some (nanoid k) \<notin> set (element_ids_list (node_children root))))"

definition ids_unique :: "node \<Rightarrow> bool" where
  "ids_unique root =
     (distinct (element_ids_list (node_children root)) \<and>
      (\<forall>i \<in> set (element_ids_list (node_children root)). i \<noteq> None \<and> i \<noteq> Some []))"

text \<open>
  One run of the loop over a subtree, from the state \<open>st\<close> to the state \<open>st'\<close>:
  \<open>old\<close> are the identifiers of the subtree before and \<open>new\<close> after the run.
  \<open>gen_fresh\<close>: what the generator will return is neither seen nor in the subtree.
\<close>

definition ids_step :: "(nat \<Rightarrow> string) \<Rightarrow> string option list \<Rightarrow> string list \<times> nat \<Rightarrow> string option list \<Rightarrow> string list \<times> nat \<Rightarrow> bool" where
  "ids_step nanoid old st new st' =
     (snd st \<le> snd st' \<and>
      set (fst st') = set (fst st) \<union> {i. Some i \<in> set new} \<and>
      (\<forall>x \<in> set new. \<exists>i. x = Some i \<and> i \<noteq> []) \<and>
      distinct new \<and>
      (\<forall>i. Some i \<in> set new \<longrightarrow> i \<notin> set (fst st)) \<and>
      (\<forall>i. Some i \<in> set new \<longrightarrow>
         Some i \<in> set old \<or> (\<exists>j. snd st \<le> j \<and> j < snd st' \<and> i = nanoid j)))"

definition gen_fresh :: "(nat \<Rightarrow> string) \<Rightarrow> string option list \<Rightarrow> string list \<times> nat \<Rightarrow> bool" where
  "gen_fresh nanoid old st =
     ((\<forall>j \<ge> snd st. nanoid j \<notin> set (fst st)) \<and> (\<forall>j. Some (nanoid j) \<notin> set old))"

text \<open>A tree with a repeated, a missing and an empty identifier.\<close>

definition clash_tree :: node where
  "clash_tree =
     Element no_props
       [Element \<lparr>ptype = Some ''part'', pid = Some ''a'', pname = None, pfolded = None\<rparr>
          [Element \<lparr>ptype = Some ''hpart'', pid = None, pname = None, pfolded = None\<rparr>
             [Text no_props ''One''],
           Element \<lparr>ptype = Some ''scene'', pid = Some ''a'', pname = None, pfolded = None\<rparr>
             [Element \<lparr>ptype = Some ''hscene'', pid = Some [], pname = None, pfolded = None\<rparr>
                [Text no_props ''Dawn''],
              Element \<lparr>ptype = Some ''p'', pid = Some ''b'', pname = None, pfolded = None\<rparr>
                [Text no_props ''hi'']]]]"

subsection \<open>Sample trees\<close>

definition block :: "string \<Rightarrow> node list \<Rightarrow> node" where
  "block t cs = Element (no_props\<lparr>ptype := Some t\<rparr>) cs"

definition named_block :: "string \<Rightarrow> string \<Rightarrow> node list \<Rightarrow> node" where
  "named_block t n cs = Element (no_props\<lparr>ptype := Some t, pname := Some n\<rparr>) cs"

definition leaf_text :: "string \<Rightarrow> node" where
  "leaf_text s = Text no_props s"

text \<open>
  The editor that holds the single top-level scene
  \<open>{type:"scene", children:[{type:"hscene", text:"Old"}, {type:"p", text:"hi"}]}\<close>.
\<close>

definition lone_scene_tree :: node where
  "lone_scene_tree =
     Element no_props [block ''scene'' [block ''hscene'' [leaf_text ''Old''], block ''p'' [leaf_text ''hi'']]]"

text \<open>
  The editor that holds \<open>{type:"part", name:"Old", children:[{type:"hpart", text:"Old"},
  {type:"scene", name:"Old", children:[{type:"hscene", text:"Old"}, {type:"p", text:"hi"}]}]}\<close>.
\<close>

definition part_old_scene_old_tree :: node where
  "part_old_scene_old_tree =
     Element no_props
       [named_block ''part'' ''Old''
          [block ''hpart'' [leaf_text ''Old''],
           named_block ''scene'' ''Old'' [block ''hscene'' [leaf_text ''Old''], block ''p'' [leaf_text ''hi'']]]]"

text \<open>
  The editor that holds \<open>{type:"part", name:"Old", children:[{type:"hpart", text:"Old"},
  {type:"scene", name:"hi", children:[{type:"hscene", text:"hi"}]}]}\<close>.
\<close>

definition part_old_scene_hi_tree :: node where
  "part_old_scene_hi_tree =
     Element no_props
       [named_block ''part'' ''Old''
          [block ''hpart'' [leaf_text ''Old''],
           named_block ''scene'' ''hi'' [block ''hscene'' [leaf_text ''hi'']]]]"

subsection \<open>Header-mismatch repair, in the words of the specification\<close>

text \<open>
  The repair of the container at index \<open>i\<close> among the children \<open>cs\<close> of its parent,
  for the expected header type \<open>t\<close>: a container without children is deleted; one
  whose first child has the expected type is left alone; otherwise, when the sibling
  just before it has the same type, both are unfolded and the container is merged into
  that sibling (its children appended, the container removed); in every other case
  nothing changes. \<open>repair_needed\<close> says whether the tree was changed ("needs another
  pass").
\<close>

definition clear_folded :: "node \<Rightarrow> node" where
  "clear_folded n =
     (if pfolded (node_props n) = Some True then set_props (\<lambda>a. a\<lparr>pfolded := Some False\<rparr>) n else n)"

definition repair_siblings :: "string \<Rightarrow> nat \<Rightarrow> node list \<Rightarrow> node list" where
  "repair_siblings t i cs =
     (if node_children (cs ! i) = [] then take i cs @ drop (Suc i) cs
      else if node_type (hd (node_children (cs ! i))) = Some t then cs
      else if 0 < i \<and> node_type (cs ! (i - 1)) = node_type (cs ! i)
      then take (i - 1) cs
           @ [Element (node_props (clear_folded (cs ! (i - 1))))
                (node_children (cs ! (i - 1)) @ node_children (cs ! i))]
           @ drop (Suc i) cs
      else cs)"

definition repair_needed :: "string \<Rightarrow> nat \<Rightarrow> node list \<Rightarrow> bool" where
  "repair_needed t i cs =
     (node_children (cs ! i) = [] \<or>
      (node_type (hd (node_children (cs ! i))) \<noteq> Some t \<and> 0 < i \<and>
       node_type (cs ! (i - 1)) = node_type (cs ! i)))"

text \<open>The tree with the children of the node at \<open>p\<close> replaced by \<open>cs\<close>.\<close>

definition with_children :: "path \<Rightarrow> node list \<Rightarrow> node \<Rightarrow> node" where
  "with_children p cs root = modify_children p (\<lambda>_. cs) root"

text \<open>
  A part with two folded scenes, the second without its header, and the same part after
  the second scene was merged into the first.
\<close>

definition first_scene :: node where
  "first_scene =
     Element \<lparr>ptype = Some ''scene'', pid = Some ''s1'', pname = Some ''S'', pfolded = Some True\<rparr>
       [block ''hscene'' [leaf_text ''S''], block ''p'' [leaf_text ''x'']]"

definition headless_scene :: node where
  "headless_scene =
     Element \<lparr>ptype = Some ''scene'', pid = Some ''s2'', pname = None, pfolded = Some True\<rparr>
       [block ''p'' [leaf_text ''y'']]"

definition two_scenes_tree :: node where
  "two_scenes_tree =
     Element no_props
       [named_block ''part'' ''A'' [block ''hpart'' [leaf_text ''A''], first_scene, headless_scene]]"

definition merged_scenes_tree :: node where
  "merged_scenes_tree =
     Element no_props
       [named_block ''part'' ''A''
          [block ''hpart'' [leaf_text ''A''],
           Element \<lparr>ptype = Some ''scene'', pid = Some ''s1'', pname = Some ''S'', pfolded = Some False\<rparr>
             [block ''hscene'' [leaf_text ''S''], block ''p'' [leaf_text ''x''],
              block ''p'' [leaf_text ''y'']]]]"

text \<open>
  A part whose second child is a scene that starts with a paragraph, and the same part
  with that paragraph relabelled as the scene's header.
\<close>

definition headless_scene_tree :: node where
  "headless_scene_tree =
     Element no_props
       [named_block ''part'' ''A''
          [block ''hpart'' [leaf_text ''A''], block ''scene'' [block ''p'' [leaf_text ''x'']]]]"

definition relabelled_scene_tree :: node where
  "relabelled_scene_tree =
     Element no_props
       [named_block ''part'' ''A''
          [block ''hpart'' [leaf_text ''A''], block ''scene'' [block ''hscene'' [leaf_text ''x'']]]]"

subsection \<open>Reachability by normalization, in any order\<close>

text \<open>
  \<open>normalizes nn root r\<close>: the tree \<open>r\<close> is reached from \<open>root\<close> by applying the
  node normalizer \<open>nn\<close> at any paths, in any order. \<open>text_length\<close> is the length of
  the text a tree holds; a \<open>shrinking\<close> normalizer never makes it longer.
\<close>

inductive normalizes :: "(path \<Rightarrow> node \<Rightarrow> js_error + node) \<Rightarrow> node \<Rightarrow> node \<Rightarrow> bool"
  for nn :: "path \<Rightarrow> node \<Rightarrow> js_error + node" and root :: node where
  start: "normalizes nn root root"
| step: "normalizes nn root r \<Longrightarrow> nn p r = Inr r' \<Longrightarrow> normalizes nn root r'"

definition text_length :: "node \<Rightarrow> nat" where
  "text_length n = length (node_string n)"

definition texts_length :: "node list \<Rightarrow> nat" where
  "texts_length cs = length (concat (map node_string cs))"

definition shrinking :: "(path \<Rightarrow> node \<Rightarrow> js_error + node) \<Rightarrow> bool" where
  "shrinking nn = (\<forall>p r r'. nn p r = Inr r' \<longrightarrow> text_length r' \<le> text_length r)"

section \<open>The editor with its selection\<close>

text \<open>
  A point is the path of a text leaf and an offset into its text; the selection is a
  range of two points (\<open>None\<close> for \<open>null\<close>). The tree of an editor is the element
  without properties that holds the editor's children.
\<close>

record point =
  at_path :: path
  offset :: nat

record sel_range =
  anchor :: point
  focus :: point

record editor =
  children :: "node list"
  selection :: "sel_range option"

definition root_of :: "editor \<Rightarrow> node" where
  "root_of ed = Element no_props (children ed)"

definition with_root :: "editor \<Rightarrow> node \<Rightarrow> editor" where
  "with_root ed root = ed\<lparr>children := node_children root\<rparr>"

definition isCollapsed :: "sel_range \<Rightarrow> bool" where
  "isCollapsed sel = (anchor sel = focus sel)"

definition caret :: "path \<Rightarrow> nat \<Rightarrow> sel_range" where
  "caret p off = \<lparr>anchor = \<lparr>at_path = p, offset = off\<rparr>, focus = \<lparr>at_path = p, offset = off\<rparr>\<rparr>"

text \<open>
  Modelled from the spec: the host's query "ancestor matching a predicate"
  (\<open>Editor.above\<close> without \<open>at\<close>, in its default mode \<open>lowest\<close>): of the elements
  that contain both ends of the selection, the lowest one that matches. \<open>levels_up\<close>
  lists the paths of the proper common ancestors of the two ends, lowest first; the
  editor itself (the empty path) is no element and never matches.
\<close>

definition levels_up :: "sel_range \<Rightarrow> path list" where
  "levels_up sel =
     filter (\<lambda>p. p \<noteq> at_path (anchor sel) \<and> p \<noteq> at_path (focus sel))
       (rev (prefixes (longest_common_prefix (at_path (anchor sel)) (at_path (focus sel)))))"

fun first_match :: "(node \<Rightarrow> bool) \<Rightarrow> node \<Rightarrow> path list \<Rightarrow> (node \<times> path) option" where
  "first_match match root [] = None"
| "first_match match root (p # ps) =
     (case node_get root p of
        None \<Rightarrow> first_match match root ps
      | Some n \<Rightarrow>
          if p \<noteq> [] \<and> \<not> isText n \<and> match n then Some (n, p)
          else first_match match root ps)"

definition above :: "(node \<Rightarrow> bool) \<Rightarrow> editor \<Rightarrow> (node \<times> path) option" where
  "above match ed =
     (case selection ed of
        None \<Rightarrow> None
      | Some sel \<Rightarrow> first_match match (root_of ed) (levels_up sel))"

subsection \<open>\<open>withProtectFolds\<close>\<close>

text \<open>\<open>n.folded\<close> is truthy.\<close>

definition is_folded :: "node \<Rightarrow> bool" where
  "is_folded n = (pfolded (node_props n) = Some True)"

definition unfoldSelection :: "editor \<Rightarrow> bool \<times> editor" where
  "unfoldSelection ed =
     (case above is_folded ed of
        None \<Rightarrow> (False, ed)
      | Some (node, path) \<Rightarrow> (True, with_root ed (doFold node path False (root_of ed))))"

text \<open>
  The four guarded operations; the first argument is the operation of the editor that
  \<open>withProtectFolds\<close> wraps.
\<close>

definition withProtectFolds_insertBreak :: "(editor \<Rightarrow> js_error + editor) \<Rightarrow> editor \<Rightarrow> js_error + editor" where
  "withProtectFolds_insertBreak insertBreak ed =
     (case unfoldSelection ed of
        (unfolded, ed1) \<Rightarrow> if \<not> unfolded then insertBreak ed1 else Inr ed1)"

definition withProtectFolds_deleteBackward :: "('o \<Rightarrow> editor \<Rightarrow> js_error + editor) \<Rightarrow> 'o \<Rightarrow> editor \<Rightarrow> js_error + editor" where
  "withProtectFolds_deleteBackward deleteBackward options ed =
     (case unfoldSelection ed of (unfolded, ed1) \<Rightarrow> deleteBackward options ed1)"

definition withProtectFolds_deleteForward :: "('o \<Rightarrow> editor \<Rightarrow> js_error + editor) \<Rightarrow> 'o \<Rightarrow> editor \<Rightarrow> js_error + editor" where
  "withProtectFolds_deleteForward deleteForward options ed =
     (case unfoldSelection ed of (unfolded, ed1) \<Rightarrow> deleteForward options ed1)"

definition withProtectFolds_insertText :: "(string \<Rightarrow> 'o \<Rightarrow> editor \<Rightarrow> js_error + editor) \<Rightarrow> string \<Rightarrow> 'o \<Rightarrow> editor \<Rightarrow> js_error + editor" where
  "withProtectFolds_insertText insertText text options ed =
     (case unfoldSelection ed of (unfolded, ed1) \<Rightarrow> insertText text options ed1)"

text \<open>
  The folded ancestors of the selection, lowest first, and the editor with the folded
  flag of the element at \<open>p\<close> set to \<open>false\<close>.
\<close>

definition folded_ancestors :: "editor \<Rightarrow> path list" where
  "folded_ancestors ed =
     (case selection ed of
        None \<Rightarrow> []
      | Some sel \<Rightarrow>
          filter (\<lambda>p. case node_get (root_of ed) p of
                        None \<Rightarrow> False
                      | Some n \<Rightarrow> p \<noteq> [] \<and> \<not> isText n \<and> is_folded n)
            (levels_up sel))"

definition unfold_at :: "path \<Rightarrow> editor \<Rightarrow> editor" where
  "unfold_at p ed =
     with_root ed (setNodes (\<lambda>a. a\<lparr>pfolded := Some False\<rparr>) p (root_of ed))"

definition unfolded :: "editor \<Rightarrow> editor" where
  "unfolded ed = (case folded_ancestors ed of [] \<Rightarrow> ed | p # ps \<Rightarrow> unfold_at p ed)"

subsection \<open>\<open>withMarkup\<close>\<close>

definition SHORTCUTS :: "(string \<times> string) list" where
  "SHORTCUTS = [(''** '', ''hpart''), (''## '', ''hscene''), (''>> '', ''synopsis''),
                (''// '', ''comment''), (''!! '', ''missing'')]"

definition STYLEAFTER :: "(string \<times> string) list" where
  "STYLEAFTER = [(''hpart'', ''hscene''), (''hscene'', ''p''), (''synopsis'', ''p''),
                 (''missing'', ''p'')]"

definition RESETEMPTY :: "string list" where
  "RESETEMPTY = [''synopsis'', ''comment'', ''missing'']"

text \<open>
  \<open>key in obj\<close> for an object literal \<open>obj\<close>: the operator \<open>in\<close> of JavaScript
  holds for the object's own keys and for the property names it inherits from
  \<open>Object.prototype\<close>. The value read at an inherited name is a built-in function (or
  the prototype object): it has no enumerable property of its own, so
  \<open>Transforms.setNodes(editor, obj[key])\<close> sets nothing; as a node's \<open>type\<close> it is
  no string, and is written here as the string it converts to.
\<close>

definition Object_prototype :: "string list" where
  "Object_prototype =
     [''constructor'', ''__defineGetter__'', ''__defineSetter__'', ''hasOwnProperty'',
      ''__lookupGetter__'', ''__lookupSetter__'', ''isPrototypeOf'', ''propertyIsEnumerable'',
      ''toString'', ''valueOf'', ''__proto__'', ''toLocaleString'']"

definition js_in :: "string \<Rightarrow> (string \<times> 'a) list \<Rightarrow> bool" where
  "js_in key obj = (key \<in> set (map fst obj) \<or> key \<in> set Object_prototype)"

definition inherited_value :: "string \<Rightarrow> string" where
  "inherited_value key =
     (if key = ''__proto__'' then ''[object Object]''
      else ''function '' @ key @ ''() { [native code] }'')"

text \<open>
  Modelled from the spec: the host's queries and edits at the selection.
  \<open>first_leaf\<close> is the path of the first text below a node (\<open>Editor.start\<close>);
  \<open>text_before\<close> is the text of a block from its start to a point in it
  (\<open>Editor.string\<close> of the range between the two); \<open>delete_before\<close> deletes that text
  (\<open>Transforms.select\<close> of the range, then \<open>Transforms.delete\<close>; what stood wholly
  before the point is gone, the text that held the point keeps what followed it);
  \<open>split_block\<close> splits a block at a point in its \<open>j\<close>-th child, a text
  (\<open>Transforms.splitNodes\<close> with \<open>always\<close>: both halves keep the block's properties).
\<close>

fun first_leaf :: "node \<Rightarrow> path option" where
  "first_leaf (Text a s) = Some []"
| "first_leaf (Element a []) = None"
| "first_leaf (Element a (c # cs)) = map_option ((#) 0) (first_leaf c)"

fun text_before :: "node \<Rightarrow> path \<Rightarrow> nat \<Rightarrow> string" where
  "text_before (Text a s) p off = take off s"
| "text_before (Element a cs) [] off = []"
| "text_before (Element a cs) (i # p) off =
     (if i < length cs then concat (map node_string (take i cs)) @ text_before (cs ! i) p off
      else [])"

fun delete_before :: "node \<Rightarrow> path \<Rightarrow> nat \<Rightarrow> node" where
  "delete_before (Text a s) p off = Text a (drop off s)"
| "delete_before (Element a cs) [] off = Element a cs"
| "delete_before (Element a cs) (i # p) off =
     (if i < length cs then Element a (delete_before (cs ! i) p off # drop (Suc i) cs)
      else Element a cs)"

definition split_block :: "node \<Rightarrow> nat \<Rightarrow> nat \<Rightarrow> (node \<times> node) option" where
  "split_block n j off =
     (case n of
        Text a s \<Rightarrow> None
      | Element a cs \<Rightarrow>
          if j < length cs then
            (case cs ! j of
               Text b s \<Rightarrow>
                 Some (Element a (take j cs @ [Text b (take off s)]),
                       Element a (Text b (drop off s) # drop (Suc j) cs))
             | Element b ds \<Rightarrow> None)
          else None)"

text \<open>
  \<open>editor.insertText\<close> of \<open>withMarkup\<close>; \<open>insertText\<close> is the operation it wraps.
  Destructuring the result of \<open>Editor.above\<close> throws when there is no block.
\<close>

definition withMarkup_insertText :: "(string \<Rightarrow> editor \<Rightarrow> js_error + editor) \<Rightarrow> string \<Rightarrow> editor \<Rightarrow> js_error + editor" where
  "withMarkup_insertText insertText text ed =
     (case selection ed of
        None \<Rightarrow> insertText text ed
      | Some sel \<Rightarrow>
          if \<not> isCollapsed sel then insertText text ed
          else
            (case above (\<lambda>n. True) ed of
               None \<Rightarrow> Inl TypeError
             | Some (node, path) \<Rightarrow>
                 (case first_leaf node of
                    None \<Rightarrow> Inl SlateError
                  | Some start \<Rightarrow>
                      if js_in (text_before node (drop (length path) (at_path (anchor sel)))
                                  (offset (anchor sel)) @ text) SHORTCUTS
                      then
                        Inr \<lparr>children = node_children
                               (splice_at path
                                  (\<lambda>n. [set_props
                                          (\<lambda>a. case map_of SHORTCUTS
                                                  (text_before node
                                                     (drop (length path) (at_path (anchor sel)))
                                                     (offset (anchor sel)) @ text) of
                                                 None \<Rightarrow> a
                                               | Some t \<Rightarrow> a\<lparr>ptype := Some t\<rparr>)
                                          (delete_before node
                                             (drop (length path) (at_path (anchor sel)))
                                             (offset (anchor sel)))])
                                  (root_of ed)),
                             selection = Some (caret (path @ replicate
                               (length (at_path (anchor sel)) - length path) 0) 0)\<rparr>
                      else insertText text ed)))"

text \<open>\<open>editor.insertBreak\<close> of \<open>withMarkup\<close>; \<open>insertBreak\<close> is the operation it wraps.\<close>

definition withMarkup_insertBreak :: "(editor \<Rightarrow> js_error + editor) \<Rightarrow> editor \<Rightarrow> js_error + editor" where
  "withMarkup_insertBreak insertBreak ed =
     (case selection ed of
        None \<Rightarrow> insertBreak ed
      | Some sel \<Rightarrow>
          if \<not> isCollapsed sel then insertBreak ed
          else
            (case above (\<lambda>n. True) ed of
               None \<Rightarrow> Inl TypeError
             | Some (node, path) \<Rightarrow>
                 (case node_type node of
                    None \<Rightarrow> insertBreak ed
                  | Some t \<Rightarrow>
                      if t \<in> set RESETEMPTY \<and> node_string node = []
                      then Inr (with_root ed
                                  (setNodes (\<lambda>a. a\<lparr>ptype := Some ''p''\<rparr>) path (root_of ed)))
                      else if js_in t STYLEAFTER then
                        (case split_block node (last (at_path (anchor sel))) (offset (anchor sel)) of
                           None \<Rightarrow> Inl SlateError
                         | Some (n1, n2) \<Rightarrow>
                             Inr \<lparr>children = node_children
                                    (splice_at path
                                       (\<lambda>n. [n1, set_props
                                                (\<lambda>a. a\<lparr>ptype := Some
                                                   (case map_of STYLEAFTER t of
                                                      None \<Rightarrow> inherited_value t
                                                    | Some t' \<Rightarrow> t')\<rparr>) n2])
                                       (root_of ed)),
                                  selection = Some (caret (butlast path @ [Suc (last path), 0]) 0)\<rparr>)
                      else insertBreak ed)))"

subsection \<open>Sample editors\<close>

text \<open>
  An editor that holds one part "A" with one scene "S"; the scene holds its header and
  one block of type \<open>t\<close> with the text \<open>s\<close>, and the caret stands in that block at
  offset \<open>off\<close>.
\<close>

definition story_editor :: "string \<Rightarrow> string \<Rightarrow> nat \<Rightarrow> editor" where
  "story_editor t s off =
     \<lparr>children =
        [named_block ''part'' ''A''
           [block ''hpart'' [leaf_text ''A''],
            named_block ''scene'' ''S'' [block ''hscene'' [leaf_text ''S''], block t [leaf_text s]]]],
      selection = Some (caret [0, 1, 1, 0] off)\<rparr>"

text \<open>
  An editor whose only scene holds just its header "Ch1", with the caret at the end of
  the header, and the same editor with an empty paragraph after the header and the
  caret in that paragraph.
\<close>

definition heading_editor :: editor where
  "heading_editor =
     \<lparr>children =
        [named_block ''part'' ''A''
           [block ''hpart'' [leaf_text ''A''],
            named_block ''scene'' ''Ch1'' [block ''hscene'' [leaf_text ''Ch1'']]]],
      selection = Some (caret [0, 1, 0, 0] 3)\<rparr>"

definition heading_paragraph_editor :: editor where
  "heading_paragraph_editor =
     \<lparr>children =
        [named_block ''part'' ''A''
           [block ''hpart'' [leaf_text ''A''],
            named_block ''scene'' ''Ch1''
              [block ''hscene'' [leaf_text ''Ch1''], block ''p'' [leaf_text []]]]],
      selection = Some (caret [0, 1, 1, 0] 0)\<rparr>"

text \<open>
  An editor with the caret in a paragraph of a scene whose \<open>folded\<close> flag is \<open>f\<close>,
  inside a part that is not folded.
\<close>

definition folding_editor :: "bool \<Rightarrow> editor" where
  "folding_editor f =
     \<lparr>children =
        [named_block ''part'' ''A''
           [block ''hpart'' [leaf_text ''A''],
            Element \<lparr>ptype = Some ''scene'', pid = None, pname = Some ''S'', pfolded = Some f\<rparr>
              [block ''hscene'' [leaf_text ''S''], block ''p'' [leaf_text ''x'']]]],
      selection = Some (caret [0, 1, 1, 0] 1)\<rparr>"

text \<open>Stand-ins for the wrapped operations: they fail, so that a call of one shows.\<close>

definition wrapped_insertBreak :: "editor \<Rightarrow> js_error + editor" where
  "wrapped_insertBreak ed = Inl SlateError"

definition wrapped_insertText :: "string \<Rightarrow> editor \<Rightarrow> js_error + editor" where
  "wrapped_insertText text ed = Inl SlateError"

section \<open>Properties of the edit/document bridge\<close>

lemma map_heap_keep:
  assumes "\<And>x h. x \<in> set xs \<Longrightarrow> f x h = (x, h)"
  shows "map_heap f xs h = (xs, h)"
  using assms by (induction xs arbitrary: h) auto

lemma map_js_keep:
  assumes "\<And>x h. x \<in> set xs \<Longrightarrow> f x h = Inr (x, h)"
  shows "map_js f xs h = Inr (xs, h)"
  using assms by (induction xs arbitrary: h) auto

lemma header_wc: "header nanoid t n h = (x, h1) \<Longrightarrow> wc_calls h1 = wc_calls h"
  by (auto simp: header_def new_ref_def nanoid_next_def)

lemma cmpList_refl: "cmpList xs xs"
  by (simp add: cmpList_def list_all2_same same_object_def)

lemma map_of_section2lookup:
  assumes "distinct (map fst (section_entries sect))" and "(k, v) \<in> set (section_entries sect)"
  shows "map_of (section2lookup sect) k = Some v"
proof -
  have "distinct (map fst (rev (section_entries sect)))"
    using assms(1) by (simp add: rev_map [symmetric])
  moreover have "(k, v) \<in> set (rev (section_entries sect))" using assms(2) by simp
  ultimately show ?thesis unfolding section2lookup_def by (rule map_of_is_SomeI)
qed

lemma elem2edit_keep: "obj_type e \<noteq> Some ''br'' \<Longrightarrow> elem2edit e h = (e, h)"
  by (simp add: elem2edit_def)

lemma checkClean_same:
  "map_of m (obj_id e) = Some e \<Longrightarrow> checkClean wc e (MapObject m) h = Inr (e, h)"
  by (simp add: checkClean_def same_object_def)

lemma scene_roundtrip:
  assumes look: "map_of m (obj_id s) = Some s"
    and ty: "obj_type s = Some ''scene''"
    and nobr: "\<And>e. e \<in> set (obj_children s) \<Longrightarrow> obj_type e \<noteq> Some ''br''"
    and kids: "\<And>e. e \<in> set (obj_children s) \<Longrightarrow> map_of m (obj_id e) = Some e"
    and ed: "scene2edit nanoid s h = (es, h1)"
  shows "wc_calls h1 = wc_calls h \<and> undoes (\<lambda>x. edit2scene wc x (MapObject m)) s es"
proof -
  obtain head ha where hd: "header nanoid ''hscene'' (obj_name s) h = (head, ha)"
    by (cases "header nanoid ''hscene'' (obj_name s) h")
  have mh: "map_heap elem2edit (obj_children s) ha = (obj_children s, ha)"
    by (rule map_heap_keep) (simp add: elem2edit_keep nobr)
  have es: "es = Obj (next_ref ha) (Some ''scene'') (obj_id s) (obj_name s) (obj_folded s) None None
      (head # obj_children s)" and h1: "h1 = ha\<lparr>next_ref := Suc (next_ref ha)\<rparr>"
    using ed by (simp_all add: scene2edit_def hd mh new_ref_def)
  have w1: "wc_calls h1 = wc_calls h" using header_wc [OF hd] h1 by simp
  have "\<exists>h3. edit2scene wc es (MapObject m) h2 = Inr (s, h3) \<and> wc_calls h3 = wc_calls h2" for h2
  proof -
    have mj: "map_js (\<lambda>p. edit2paragraph wc p (MapObject m)) (obj_children s) h2
        = Inr (obj_children s, h2)"
      by (rule map_js_keep) (simp add: edit2paragraph_def checkClean_same kids)
    show ?thesis
      by (simp add: edit2scene_def es mj new_ref_def checkClean_def look cmpType_def ty
          cmpNamedGroup_def cmpTypeName_def cmpChildren_def cmpList_refl)
  qed
  with w1 show ?thesis unfolding undoes_def by blast
qed

lemma map_heap_undoes:
  assumes "\<And>x h y h1. x \<in> set xs \<Longrightarrow> f x h = (y, h1) \<Longrightarrow> wc_calls h1 = wc_calls h \<and> undoes F x y"
    and "map_heap f xs h = (ys, h')"
  shows "wc_calls h' = wc_calls h \<and> list_all2 (undoes F) xs ys"
  using assms
proof (induction xs arbitrary: h ys h')
  case Nil
  then show ?case by simp
next
  case (Cons x xs)
  obtain y h1 where fx: "f x h = (y, h1)" by (cases "f x h")
  obtain zs h2 where mz: "map_heap f xs h1 = (zs, h2)" by (cases "map_heap f xs h1")
  have ys: "ys = y # zs" and h': "h' = h2" using Cons.prems(2) fx mz by simp_all
  have a: "wc_calls h1 = wc_calls h \<and> undoes F x y" using Cons.prems(1) [OF _ fx] by simp
  have b: "wc_calls h2 = wc_calls h1 \<and> list_all2 (undoes F) xs zs"
    by (rule Cons.IH [OF _ mz]) (use Cons.prems(1) in auto)
  show ?case using a b ys h' by simp
qed

lemma map_js_undoes:
  assumes "list_all2 (undoes F) xs ys"
  shows "\<exists>h3. map_js F ys h2 = Inr (xs, h3) \<and> wc_calls h3 = wc_calls h2"
  using assms
proof (induction xs ys arbitrary: h2 rule: list_all2_induct)
  case Nil
  then show ?case by simp
next
  case (Cons x xs y ys)
  obtain ha where a: "F y h2 = Inr (x, ha)" "wc_calls ha = wc_calls h2"
    using Cons.hyps(1) unfolding undoes_def by blast
  obtain hb where b: "map_js F ys ha = Inr (xs, hb)" "wc_calls hb = wc_calls ha"
    using Cons.IH by blast
  show ?case using a b by simp
qed

lemma part_roundtrip:
  assumes look: "map_of m (obj_id p) = Some p"
    and ty: "obj_type p = Some ''part''"
    and scenes: "\<And>s. s \<in> set (obj_children p) \<Longrightarrow>
        map_of m (obj_id s) = Some s \<and> obj_type s = Some ''scene'' \<and>
        (\<forall>e \<in> set (obj_children s). obj_type e \<noteq> Some ''br'' \<and> map_of m (obj_id e) = Some e)"
    and ed: "part2edit nanoid p h = (ep, h1)"
  shows "wc_calls h1 = wc_calls h \<and> undoes (\<lambda>x. edit2part wc x (MapObject m)) p ep"
proof -
  let ?F = "\<lambda>x. edit2scene wc x (MapObject m)"
  obtain head ha where hd: "header nanoid ''hpart'' (obj_name p) h = (head, ha)"
    by (cases "header nanoid ''hpart'' (obj_name p) h")
  obtain cs hb where mh: "map_heap (scene2edit nanoid) (obj_children p) ha = (cs, hb)"
    by (cases "map_heap (scene2edit nanoid) (obj_children p) ha")
  have step: "wc_calls h1' = wc_calls h' \<and> undoes ?F s y"
    if "s \<in> set (obj_children p)" "scene2edit nanoid s h' = (y, h1')" for s h' y h1'
    using scene_roundtrip [of m s nanoid h' y h1' wc] scenes [OF that(1)] that(2) by blast
  have ms: "wc_calls hb = wc_calls ha \<and> list_all2 (undoes ?F) (obj_children p) cs"
    by (rule map_heap_undoes [OF _ mh]) (rule step)
  have ep: "ep = Obj (next_ref hb) (Some ''part'') (obj_id p) (obj_name p) (obj_folded p) None None
      (head # cs)" and h1: "h1 = hb\<lparr>next_ref := Suc (next_ref hb)\<rparr>"
    using ed by (simp_all add: part2edit_def hd mh new_ref_def)
  have w1: "wc_calls h1 = wc_calls h" using header_wc [OF hd] h1 ms by simp
  have "\<exists>h3. edit2part wc ep (MapObject m) h2 = Inr (p, h3) \<and> wc_calls h3 = wc_calls h2" for h2
  proof -
    obtain hc where mj: "map_js ?F cs h2 = Inr (obj_children p, hc)" "wc_calls hc = wc_calls h2"
      using map_js_undoes [of ?F "obj_children p" cs h2] ms by blast
    show ?thesis
      by (simp add: edit2part_def ep mj new_ref_def checkClean_def look cmpType_def ty
          cmpNamedGroup_def cmpTypeName_def cmpChildren_def cmpList_refl)
  qed
  with w1 show ?thesis unfolding undoes_def by blast
qed

lemma entries_part: "p \<in> set (parts sect) \<Longrightarrow> (obj_id p, p) \<in> set (section_entries sect)"
  by (auto simp: section_entries_def part_entries_def)

lemma entries_scene:
  "p \<in> set (parts sect) \<Longrightarrow> s \<in> set (obj_children p) \<Longrightarrow>
   (obj_id s, s) \<in> set (section_entries sect)"
  by (auto simp: section_entries_def part_entries_def scene_entries_def)

lemma entries_elem:
  assumes p: "p \<in> set (parts sect)" and s: "s \<in> set (obj_children p)"
    and e: "e \<in> set (obj_children s)"
  shows "(obj_id e, e) \<in> set (section_entries sect)"
proof -
  have "(obj_id e, e) \<in> set (scene_entries s)" using e by (simp add: scene_entries_def)
  then have "(obj_id e, e) \<in> set (part_entries p)" using s by (auto simp: part_entries_def)
  then show ?thesis using p by (auto simp: section_entries_def)
qed

text \<open>
  Claim C1, as amended. For every persisted section that satisfies the data model
  (pairwise distinct identifiers, parts of type \<open>part\<close>, scenes of type \<open>scene\<close>) and
  holds no legacy \<open>br\<close> paragraph, \<open>updateSection(section2edit(section), section)\<close>
  returns the section object itself, the list of committed parts is the section's own
  list of parts (every part, and with it every scene and paragraph, is the original
  object), and \<open>wcElem\<close> is not called.
\<close>

theorem updateSection_section2edit_reuse:
  assumes wf: "wf_section sect" and nobr: "no_legacy_breaks sect"
  shows "\<exists>h2. updateSection wc (fst (section2edit nanoid sect h)) (Some sect)
                 (snd (section2edit nanoid sect h)) = Inr (sect, h2)
          \<and> map_js (\<lambda>part. edit2part wc part (MapObject (section2lookup sect)))
                 (fst (section2edit nanoid sect h)) (snd (section2edit nanoid sect h))
               = Inr (parts sect, h2)
          \<and> wc_calls h2 = wc_calls h"
proof -
  let ?m = "section2lookup sect"
  let ?F = "\<lambda>x. edit2part wc x (MapObject ?m)"
  obtain buffer h1 where ed: "section2edit nanoid sect h = (buffer, h1)"
    by (cases "section2edit nanoid sect h")
  have d: "distinct (map fst (section_entries sect))" using wf by (simp add: wf_section_def)
  have step: "wc_calls hb = wc_calls ha \<and> undoes ?F p y"
    if "p \<in> set (parts sect)" "part2edit nanoid p ha = (y, hb)" for p ha y hb
  proof (rule part_roundtrip [OF _ _ _ that(2)])
    show "map_of ?m (obj_id p) = Some p"
      by (rule map_of_section2lookup [OF d entries_part [OF that(1)]])
    show "obj_type p = Some ''part''" using wf that(1) by (simp add: wf_section_def)
    fix s assume s: "s \<in> set (obj_children p)"
    show "map_of ?m (obj_id s) = Some s \<and> obj_type s = Some ''scene'' \<and>
        (\<forall>e \<in> set (obj_children s). obj_type e \<noteq> Some ''br'' \<and> map_of ?m (obj_id e) = Some e)"
      using wf nobr that(1) s map_of_section2lookup [OF d entries_scene [OF that(1) s]]
        map_of_section2lookup [OF d entries_elem [OF that(1) s]]
      by (auto simp: wf_section_def no_legacy_breaks_def)
  qed
  have ms: "wc_calls h1 = wc_calls h \<and> list_all2 (undoes ?F) (parts sect) buffer"
    by (rule map_heap_undoes [OF _ ed [unfolded section2edit_def]]) (rule step)
  obtain h2 where mj: "map_js ?F buffer h1 = Inr (parts sect, h2)" "wc_calls h2 = wc_calls h1"
    using map_js_undoes [of ?F "parts sect" buffer h1] ms by blast
  show ?thesis using mj ms by (simp add: ed updateSection_def cmpList_refl)
qed

lemma small_section_wf: "wf_section (small_section ''p'')"
  by (simp add: wf_section_def small_section_def section_entries_def part_entries_def
      scene_entries_def)

lemma small_section_nobr: "no_legacy_breaks (small_section ''p'')"
  by (simp add: no_legacy_breaks_def small_section_def)

theorem updateSection_section2edit_reuse_witness:
  "wf_section (small_section ''p'') \<and> no_legacy_breaks (small_section ''p'') \<and>
   (\<exists>h2. updateSection wc0 (fst (section2edit nanoid0 (small_section ''p'') heap0))
            (Some (small_section ''p'')) (snd (section2edit nanoid0 (small_section ''p'') heap0))
          = Inr (small_section ''p'', h2) \<and> wc_calls h2 = wc_calls heap0)"
  using updateSection_section2edit_reuse [OF small_section_wf small_section_nobr,
      of wc0 nanoid0 heap0] small_section_wf small_section_nobr
  by blast

text \<open>
  Claim C1 as stated fails on a section that satisfies the data model and holds a legacy
  \<open>br\<close> paragraph: \<open>elem2edit\<close> turns it into a new \<open>p\<close> object, \<open>cmpType\<close> then
  finds the types different, the paragraph, its scene and its part are rebuilt with four
  calls of \<open>wcElem\<close>, and a new section object (allocated at 113, not at 1) is returned.
\<close>

theorem updateSection_section2edit_legacy_break:
  "wf_section (small_section ''br'') \<and>
   (case updateSection wc0 (fst (section2edit nanoid0 (small_section ''br'') heap0))
           (Some (small_section ''br'')) (snd (section2edit nanoid0 (small_section ''br'') heap0)) of
      Inl e \<Rightarrow> False
    | Inr (s, h) \<Rightarrow> sect_ref s = 113 \<and> sect_ref (small_section ''br'') = 1 \<and>
        map obj_ref (parts s) = [111] \<and> map obj_type (concat (map obj_children
          (concat (map obj_children (parts s))))) = [Some ''p''] \<and> wc_calls h = 4)"
  by (simp add: wf_section_def small_section_def section_entries_def part_entries_def
      scene_entries_def section2edit_def part2edit_def scene2edit_def elem2edit_def header_def
      new_ref_def nanoid_next_def heap0_def updateSection_def edit2part_def edit2scene_def
      edit2paragraph_def checkClean_def section2lookup_def same_object_def cmpType_def
      rebuild_def cmpNamedGroup_def cmpTypeName_def cmpChildren_def cmpList_def leaf_def)

text \<open>
  What \<open>checkClean\<close> decides for a paragraph whose identifier is in the lookup (its type
  is none of \<open>part\<close>, \<open>scene\<close>, \<open>br\<close>): the stored object is reused when it is the
  same object, or has the same identifier and type and the same text in its first child.
\<close>

lemma checkClean_paragraph:
  assumes "map_of m (obj_id elem) = Some orig"
    and "obj_type elem \<noteq> Some ''part''" "obj_type elem \<noteq> Some ''scene''"
    and "obj_type elem \<noteq> Some ''br''"
    and "obj_children elem = e0 # es" "obj_children orig = o0 # os"
  shows "checkClean wc elem (MapObject m) h =
     (if same_object elem orig \<or>
         (obj_id elem = obj_id orig \<and> obj_type elem = obj_type orig \<and> obj_text e0 = obj_text o0)
      then Inr (orig, h) else Inr (rebuild wc elem h))"
  using assms by (simp add: checkClean_def cmpType_def)

text \<open>
  Claim C9 at the failing input: the stored paragraph has the text leaves "Hello " and
  "world"; the edited paragraph (same identifier, same type, a new object) has "Hello "
  and "brave new world". \<open>checkClean\<close> compares \<open>children[0].text\<close> only and returns
  the stored object: the paragraph is reused although its text changed.
\<close>

theorem checkClean_first_leaf_only:
  "checkClean wc0 edited_para (MapObject [(obj_id stored_para, stored_para)]) heap0
     = Inr (stored_para, heap0) \<and>
   obj_id edited_para = obj_id stored_para \<and> obj_type edited_para = obj_type stored_para \<and>
   concat (map (\<lambda>c. case obj_text c of None \<Rightarrow> [] | Some s \<Rightarrow> s) (obj_children edited_para))
     = ''Hello brave new world'' \<and>
   concat (map (\<lambda>c. case obj_text c of None \<Rightarrow> [] | Some s \<Rightarrow> s) (obj_children stored_para))
     = ''Hello world''"
  by (simp add: checkClean_def stored_para_def edited_para_def same_object_def cmpType_def
      leaf_def)

lemma map_js_all_throw:
  assumes "\<And>x h. f x h = Inl TypeError"
  shows "map_js f xs h = (if xs = [] then Inr ([], h) else Inl TypeError)"
  using assms by (cases xs) simp_all

lemma checkClean_plain: "checkClean wc elem PlainObject h = Inl TypeError"
  by (simp add: checkClean_def)

lemma edit2scene_plain: "edit2scene wc scene PlainObject h = Inl TypeError"
proof -
  have "map_js (\<lambda>p. edit2paragraph wc p PlainObject) xs h
      = (if xs = [] then Inr ([], h) else Inl TypeError)" for xs
    by (rule map_js_all_throw) (simp add: edit2paragraph_def checkClean_plain)
  then show ?thesis
    by (simp add: edit2scene_def checkClean_plain split: prod.splits)
qed

lemma edit2part_plain: "edit2part wc part PlainObject h = Inl TypeError"
proof -
  have "map_js (\<lambda>s. edit2scene wc s PlainObject) xs h
      = (if xs = [] then Inr ([], h) else Inl TypeError)" for xs
    by (rule map_js_all_throw) (simp add: edit2scene_plain)
  then show ?thesis
    by (simp add: edit2part_def checkClean_plain split: prod.splits)
qed

text \<open>
  Claim C10. With a \<open>null\<close> or \<open>undefined\<close> previous section \<open>updateSection\<close> throws
  a \<open>TypeError\<close> for every buffer and never builds a section: the fallback lookup is the
  plain object, on which \<open>checkClean\<close> (and so \<open>edit2part\<close>, for each part of a
  non-empty buffer) throws at \<open>lookup.has\<close>, and for the empty buffer \<open>section.parts\<close>
  throws.
\<close>

theorem updateSection_null_section:
  "checkClean wc elem PlainObject h = Inl TypeError \<and>
   edit2part wc part PlainObject h = Inl TypeError \<and>
   updateSection wc buffer None h = Inl TypeError"
proof -
  have "map_js (\<lambda>p. edit2part wc p PlainObject) buffer h
      = (if buffer = [] then Inr ([], h) else Inl TypeError)"
    by (rule map_js_all_throw) (simp add: edit2part_plain)
  then show ?thesis
    by (simp add: updateSection_def checkClean_plain edit2part_plain)
qed

theorem updateSection_null_section_witness:
  "updateSection wc0 (fst (section2edit nanoid0 (small_section ''p'') heap0)) None heap0
     = Inl TypeError"
  using updateSection_null_section [of wc0 stored_para heap0 stored_para
      "fst (section2edit nanoid0 (small_section ''p'') heap0)"]
  by simp

section \<open>Properties of the identity enforcer\<close>

lemma ids_step_fresh:
  assumes "inj nanoid" "gen_fresh nanoid old st" "ids_step nanoid old st new st'"
  shows "\<forall>j \<ge> snd st'. nanoid j \<notin> set (fst st')"
proof (intro allI impI notI)
  fix j assume j: "snd st' \<le> j" and mem: "nanoid j \<in> set (fst st')"
  have le: "snd st \<le> snd st'" using assms(3) by (simp add: ids_step_def)
  from mem assms(3) have "nanoid j \<in> set (fst st) \<or> Some (nanoid j) \<in> set new"
    by (auto simp: ids_step_def)
  then show False
  proof
    assume "nanoid j \<in> set (fst st)"
    then show False using assms(2) j le by (auto simp: gen_fresh_def)
  next
    assume n: "Some (nanoid j) \<in> set new"
    then have "Some (nanoid j) \<in> set old \<or> (\<exists>j'. snd st \<le> j' \<and> j' < snd st' \<and> nanoid j = nanoid j')"
      using assms(3) by (simp add: ids_step_def)
    then show False
    proof
      assume "Some (nanoid j) \<in> set old"
      then show False using assms(2) by (simp add: gen_fresh_def)
    next
      assume "\<exists>j'. snd st \<le> j' \<and> j' < snd st' \<and> nanoid j = nanoid j'"
      then obtain j' where "j' < snd st'" "nanoid j = nanoid j'" by blast
      then show False using assms(1) j by (auto dest: injD)
    qed
  qed
qed

lemma ids_step_append:
  assumes a: "ids_step nanoid old1 st new1 st1" and b: "ids_step nanoid old2 st1 new2 st2"
  shows "ids_step nanoid (old1 @ old2) st (new1 @ new2) st2"
proof -
  have k: "snd st \<le> snd st1" "snd st1 \<le> snd st2" using a b by (simp_all add: ids_step_def)
  have s1: "set (fst st1) = set (fst st) \<union> {i. Some i \<in> set new1}"
    and s2: "set (fst st2) = set (fst st1) \<union> {i. Some i \<in> set new2}"
    using a b by (simp_all add: ids_step_def)
  have some1: "\<forall>x \<in> set new1. \<exists>i. x = Some i \<and> i \<noteq> []"
    and some2: "\<forall>x \<in> set new2. \<exists>i. x = Some i \<and> i \<noteq> []"
    using a b by (simp_all add: ids_step_def)
  have d1: "distinct new1" and d2: "distinct new2" using a b by (simp_all add: ids_step_def)
  have n1: "\<forall>i. Some i \<in> set new1 \<longrightarrow> i \<notin> set (fst st)"
    and n2: "\<forall>i. Some i \<in> set new2 \<longrightarrow> i \<notin> set (fst st1)"
    using a b by (simp_all add: ids_step_def)
  have o1: "\<forall>i. Some i \<in> set new1 \<longrightarrow>
         Some i \<in> set old1 \<or> (\<exists>j. snd st \<le> j \<and> j < snd st1 \<and> i = nanoid j)"
    and o2: "\<forall>i. Some i \<in> set new2 \<longrightarrow>
         Some i \<in> set old2 \<or> (\<exists>j. snd st1 \<le> j \<and> j < snd st2 \<and> i = nanoid j)"
    using a b by (simp_all add: ids_step_def)
  have disj: "set new1 \<inter> set new2 = {}"
  proof (rule ccontr)
    assume "set new1 \<inter> set new2 \<noteq> {}"
    then obtain x where x: "x \<in> set new1" "x \<in> set new2" by blast
    then obtain i where i: "x = Some i" using some1 by blast
    have "i \<in> set (fst st1)" using x(1) i s1 by simp
    moreover have "i \<notin> set (fst st1)" using x(2) i n2 by simp
    ultimately show False by simp
  qed
  have c1: "snd st \<le> snd st2" using k by simp
  have c2: "set (fst st2) = set (fst st) \<union> {i. Some i \<in> set (new1 @ new2)}"
    using s1 s2 by auto
  have c3: "\<forall>x \<in> set (new1 @ new2). \<exists>i. x = Some i \<and> i \<noteq> []" using some1 some2 by auto
  have c4: "distinct (new1 @ new2)" using d1 d2 disj by simp
  have c5: "\<forall>i. Some i \<in> set (new1 @ new2) \<longrightarrow> i \<notin> set (fst st)"
    using n1 n2 s1 by auto
  have c6: "\<forall>i. Some i \<in> set (new1 @ new2) \<longrightarrow>
         Some i \<in> set (old1 @ old2) \<or> (\<exists>j. snd st \<le> j \<and> j < snd st2 \<and> i = nanoid j)"
  proof (intro allI impI)
    fix i assume "Some i \<in> set (new1 @ new2)"
    then consider "Some i \<in> set new1" | "Some i \<in> set new2" by auto
    then show "Some i \<in> set (old1 @ old2) \<or> (\<exists>j. snd st \<le> j \<and> j < snd st2 \<and> i = nanoid j)"
    proof cases
      case 1
      with o1 have "Some i \<in> set old1 \<or> (\<exists>j. snd st \<le> j \<and> j < snd st1 \<and> i = nanoid j)" by simp
      then show ?thesis using k by (auto intro: less_le_trans)
    next
      case 2
      with o2 have "Some i \<in> set old2 \<or> (\<exists>j. snd st1 \<le> j \<and> j < snd st2 \<and> i = nanoid j)" by simp
      then show ?thesis using k by (auto intro: le_trans)
    qed
  qed
  show ?thesis unfolding ids_step_def using c1 c2 c3 c4 c5 c6 by blast
qed

lemma ids_step_nil: "ids_step nanoid [] st [] st"
  by (simp add: ids_step_def)

lemma ids_step_assign:
  assumes ne: "\<forall>j. nanoid j \<noteq> []" and fr: "\<forall>j \<ge> snd st. nanoid j \<notin> set (fst st)"
    and as: "assign_id nanoid a st = (a', st')"
  shows "ids_step nanoid [pid a] st [pid a'] st'"
proof -
  obtain ids k where st: "st = (ids, k)" by (cases st)
  have fresh: "nanoid k \<notin> set ids" using fr st by simp
  show ?thesis
  proof (cases "pid a")
    case None
    then show ?thesis using as st ne fresh by (auto simp: ids_step_def)
  next
    case (Some i)
    show ?thesis
    proof (cases "i = [] \<or> i \<in> set ids")
      case True
      then show ?thesis using as st ne fresh Some by (auto simp: ids_step_def)
    next
      case False
      then show ?thesis using as st Some by (auto simp: ids_step_def)
    qed
  qed
qed

lemma fix_ids_step:
  shows "inj nanoid \<Longrightarrow> \<forall>j. nanoid j \<noteq> [] \<Longrightarrow>
         gen_fresh nanoid (element_ids n) st \<Longrightarrow> fix_ids nanoid n st = (n', st')
           \<Longrightarrow> ids_step nanoid (element_ids n) st (element_ids n') st'"
    and "inj nanoid \<Longrightarrow> \<forall>j. nanoid j \<noteq> [] \<Longrightarrow>
         gen_fresh nanoid (element_ids_list ns) st \<Longrightarrow> fix_ids_list nanoid ns st = (ns', st')
           \<Longrightarrow> ids_step nanoid (element_ids_list ns) st (element_ids_list ns') st'"
proof (induction nanoid n st and nanoid ns st arbitrary: n' st' and ns' st'
    rule: fix_ids_fix_ids_list.induct)
  case (1 nanoid a s st)
  then show ?case by (auto simp: ids_step_nil)
next
  case (2 nanoid a cs st)
  obtain a1 st1 where as: "assign_id nanoid a st = (a1, st1)" by (cases "assign_id nanoid a st")
  obtain cs1 st2 where fl: "fix_ids_list nanoid cs st1 = (cs1, st2)"
    by (cases "fix_ids_list nanoid cs st1")
  note inj = "2.prems"(1) and ne = "2.prems"(2)
  have res: "n' = Element a1 cs1" "st' = st2" using "2.prems"(4) as fl by simp_all
  have g: "gen_fresh nanoid (pid a # element_ids_list cs) st" using "2.prems"(3) by simp
  have s1: "ids_step nanoid [pid a] st [pid a1] st1"
    by (rule ids_step_assign [OF ne _ as]) (use g in \<open>simp add: gen_fresh_def\<close>)
  have g0: "gen_fresh nanoid [pid a] st" using g by (simp add: gen_fresh_def)
  have g1: "gen_fresh nanoid (element_ids_list cs) st1"
    using ids_step_fresh [OF inj g0 s1] g by (simp add: gen_fresh_def)
  have s2: "ids_step nanoid (element_ids_list cs) st1 (element_ids_list cs1) st2"
    by (rule "2.IH" [OF as [symmetric] inj ne g1 fl])
  show ?case using ids_step_append [OF s1 s2] res by simp
next
  case (3 nanoid st)
  then show ?case by (auto simp: ids_step_nil)
next
  case (4 nanoid c cs st)
  obtain c1 st1 where fc: "fix_ids nanoid c st = (c1, st1)" by (cases "fix_ids nanoid c st")
  obtain cs1 st2 where fl: "fix_ids_list nanoid cs st1 = (cs1, st2)"
    by (cases "fix_ids_list nanoid cs st1")
  note inj = "4.prems"(1) and ne = "4.prems"(2)
  have res: "ns' = c1 # cs1" "st' = st2" using "4.prems"(4) fc fl by simp_all
  have g: "gen_fresh nanoid (element_ids c @ element_ids_list cs) st" using "4.prems"(3) by simp
  have g0: "gen_fresh nanoid (element_ids c) st" using g by (simp add: gen_fresh_def)
  have s1: "ids_step nanoid (element_ids c) st (element_ids c1) st1"
    by (rule "4.IH"(1) [OF inj ne g0 fc])
  have g1: "gen_fresh nanoid (element_ids_list cs) st1"
    using ids_step_fresh [OF inj g0 s1] g by (simp add: gen_fresh_def)
  have s2: "ids_step nanoid (element_ids_list cs) st1 (element_ids_list cs1) st2"
    by (rule "4.IH"(2) [OF fc [symmetric] inj ne g1 fl])
  show ?case using ids_step_append [OF s1 s2] res by simp
qed

text \<open>
  The repairs that follow the enforcer in the same call, at the editor, add no element
  and change no identifier: the identifiers of the result are a subsequence of those
  before.
\<close>

lemma subseq_set_subset: "subseq xs ys \<Longrightarrow> set xs \<subseteq> set ys"
  by (induction rule: list_emb.induct) auto

lemma subseq_distinct_kept: "subseq xs ys \<Longrightarrow> distinct ys \<Longrightarrow> distinct xs"
proof (induction rule: list_emb.induct)
  case (list_emb_Nil ys)
  then show ?case by simp
next
  case (list_emb_Cons xs ys y)
  then show ?case by simp
next
  case (list_emb_Cons2 x y xs ys)
  then show ?case using subseq_set_subset [of xs ys] by auto
qed

lemma element_ids_list_append:
  "element_ids_list (xs @ ys) = element_ids_list xs @ element_ids_list ys"
  by (induction xs) simp_all

lemma element_ids_list_update:
  assumes "i < length cs" and "subseq (element_ids m) (element_ids (cs ! i))"
  shows "subseq (element_ids_list (cs[i := m])) (element_ids_list cs)"
proof -
  have l: "cs[i := m] = take i cs @ m # drop (Suc i) cs"
    using assms(1) by (simp add: upd_conv_take_nth_drop)
  have r: "cs = take i cs @ (cs ! i) # drop (Suc i) cs"
    using assms(1) by (simp add: id_take_nth_drop [symmetric])
  have "subseq (element_ids_list (take i cs @ m # drop (Suc i) cs))
               (element_ids_list (take i cs @ (cs ! i) # drop (Suc i) cs))"
    using assms(2) by (simp add: element_ids_list_append subseq_append' subseq_append)
  then show ?thesis using l r by metis
qed

lemma modify_children_ids:
  "(\<And>ds. subseq (element_ids_list (g ds)) (element_ids_list ds))
     \<Longrightarrow> subseq (element_ids (modify_children p g n)) (element_ids n)"
proof (induction p g n rule: modify_children.induct)
  case (1 p f a s)
  then show ?case by simp
next
  case (2 f a cs)
  then show ?case by simp
next
  case (3 i p f a cs)
  then show ?case by (simp add: element_ids_list_update)
qed

lemma splice_at_ids:
  assumes "\<And>n. subseq (element_ids_list (f n)) (element_ids n)"
  shows "subseq (element_ids (splice_at p f root)) (element_ids root)"
proof (cases "p = []")
  case True
  then show ?thesis by (simp add: splice_at_def)
next
  case False
  have "subseq (element_ids_list (if last p < length cs
                   then take (last p) cs @ f (cs ! last p) @ drop (Suc (last p)) cs
                   else cs)) (element_ids_list cs)" for cs
  proof (cases "last p < length cs")
    case True
    have r: "cs = take (last p) cs @ [cs ! last p] @ drop (Suc (last p)) cs"
      using True by (simp add: id_take_nth_drop [symmetric])
    have "subseq (element_ids_list (take (last p) cs @ f (cs ! last p) @ drop (Suc (last p)) cs))
                 (element_ids_list (take (last p) cs @ [cs ! last p] @ drop (Suc (last p)) cs))"
      using assms [of "cs ! last p"]
      by (simp add: element_ids_list_append subseq_append' subseq_append)
    then show ?thesis using True r by simp
  next
    case False
    then show ?thesis by simp
  qed
  then show ?thesis using False by (simp add: splice_at_def modify_children_ids)
qed

lemma setNodes_type_ids:
  "subseq (element_ids (setNodes (\<lambda>a. a\<lparr>ptype := t\<rparr>) p root)) (element_ids root)"
  unfolding setNodes_def
proof (rule splice_at_ids)
  fix n show "subseq (element_ids_list [set_props (\<lambda>a. a\<lparr>ptype := t\<rparr>) n]) (element_ids n)"
    by (cases n) simp_all
qed

lemma unwrapNodes_ids: "subseq (element_ids (unwrapNodes p root)) (element_ids root)"
  unfolding unwrapNodes_def
proof (rule splice_at_ids)
  fix n show "subseq (element_ids_list (case n of Text a s \<Rightarrow> [n]
                             | Element a cs \<Rightarrow> if cs = [] then [n] else cs)) (element_ids n)"
    by (cases n) (auto intro: list_emb_Cons)
qed

lemma element_ids_list_elements:
  "element_ids_list (filter (\<lambda>c. \<not> isText c) cs) = element_ids_list cs"
proof (induction cs)
  case Nil
  then show ?case by simp
next
  case (Cons c cs)
  then show ?case by (cases c) simp_all
qed

lemma core_editor_ids: "subseq (element_ids (modify_children [] (core_children True) root)) (element_ids root)"
  by (rule modify_children_ids) (simp add: core_children_def element_ids_list_elements)

lemma normalizeNode_editor_ids:
  assumes "normalizeNode core_normalizeNode [] root = Inr r"
  shows "subseq (element_ids r) (element_ids root)"
proof (cases root)
  case (Text a s)
  then show ?thesis using assms by (simp add: normalizeNode_def core_normalizeNode_def)
next
  case (Element a cs)
  show ?thesis
  proof (cases "node_get root [0, 0]")
    case None
    then show ?thesis using assms Element by (simp add: normalizeNode_def)
  next
    case (Some first)
    show ?thesis
    proof (cases "node_type first = Some ''hpart''")
      case True
      then have "r = modify_children [] (core_children True) root"
        using assms Some Element by (simp add: normalizeNode_def core_normalizeNode_def)
      then show ?thesis using core_editor_ids by simp
    next
      case False
      then have r: "r = setNodes (\<lambda>a. a\<lparr>ptype := Some ''hpart''\<rparr>) [0, 0]
                        (if node_type first = Some ''scene'' then unwrapNodes [0, 0] root
                         else root)"
        using assms Some Element by (auto simp: normalizeNode_def split: if_splits)
      show ?thesis unfolding r
        by (rule subseq_order.trans [OF setNodes_type_ids]) (simp add: unwrapNodes_ids)
    qed
  qed
qed

lemma subseq_ids_unique:
  assumes "subseq (element_ids r) (element_ids root)" and "node_props r = node_props root"
    and "isText r = isText root" and "ids_unique root"
  shows "ids_unique r"
proof (cases root)
  case (Text a s)
  then obtain b t where "r = Text b t" using assms(3) by (cases r) simp_all
  then show ?thesis by (simp add: ids_unique_def)
next
  case (Element a cs)
  then obtain b ds where r: "r = Element b ds" using assms(3) by (cases r) simp_all
  then have "b = a" using assms(2) Element by simp
  then have s: "subseq (element_ids_list ds) (element_ids_list cs)"
    using assms(1) r Element by simp
  have "distinct (element_ids_list ds)"
    using s assms(4) Element by (auto simp: ids_unique_def dest: subseq_distinct_kept)
  moreover have "set (element_ids_list ds) \<subseteq> set (element_ids_list cs)"
    using s by (rule subseq_set_subset)
  ultimately show ?thesis using assms(4) Element r by (auto simp: ids_unique_def)
qed

lemma modify_children_shape:
  "node_props (modify_children p g n) = node_props n \<and> isText (modify_children p g n) = isText n"
  by (induction p g n rule: modify_children.induct) simp_all

lemma splice_at_shape:
  "node_props (splice_at p g n) = node_props n \<and> isText (splice_at p g n) = isText n"
  by (simp add: splice_at_def modify_children_shape)

lemma normalizeNode_editor_shape:
  assumes "normalizeNode core_normalizeNode [] root = Inr r"
  shows "node_props r = node_props root \<and> isText r = isText root"
  using assms
  by (auto simp: normalizeNode_def core_normalizeNode_def setNodes_def unwrapNodes_def
        splice_at_shape modify_children_shape split: option.splits if_splits)

text \<open>
  Claim C3. When the identity enforcer has run over the whole tree and the identifier
  generator returns non-empty values never yet present in the tree (none is an
  identifier of the tree, no value is returned twice), every element of the tree has a
  non-empty identifier and the identifiers of the elements are pairwise distinct. This
  holds of the tree the enforcer's loop leaves and of the tree that the normalization
  of the editor returns (the enforcer, then the nesting rules, then the host's); at any
  other path the enforcer does not run and the wrapped normalizer alone does.
\<close>

theorem enforce_ids_unique:
  assumes "fresh_generator nanoid root"
  shows "ids_unique (fst (enforce_ids nanoid (root, k))) \<and>
         (\<forall>r k'. withIDs_normalizeNode nanoid (normalizeNode core_normalizeNode) [] (root, k) = Inr (r, k')
            \<longrightarrow> ids_unique r) \<and>
         (p \<noteq> [] \<longrightarrow> withIDs_normalizeNode nanoid inner p (root, k)
            = (case inner p root of Inl e \<Rightarrow> Inl e | Inr r \<Rightarrow> Inr (r, k)))"
proof -
  obtain cs ids k1 where fl: "fix_ids_list nanoid (node_children root) ([], k) = (cs, ids, k1)"
    by (cases "fix_ids_list nanoid (node_children root) ([], k)") auto
  have inj: "inj nanoid" and ne: "\<forall>j. nanoid j \<noteq> []"
    and fr: "\<forall>j. Some (nanoid j) \<notin> set (element_ids_list (node_children root))"
    using assms by (simp_all add: fresh_generator_def)
  have g: "gen_fresh nanoid (element_ids_list (node_children root)) ([], k)"
    using fr by (simp add: gen_fresh_def)
  have "ids_step nanoid (element_ids_list (node_children root)) ([], k) (element_ids_list cs) (ids, k1)"
    by (rule fix_ids_step(2) [OF inj ne g fl])
  then have "distinct (element_ids_list cs)"
    and "\<forall>x \<in> set (element_ids_list cs). \<exists>i. x = Some i \<and> i \<noteq> []"
    by (simp_all add: ids_step_def)
  then have u: "ids_unique (fst (enforce_ids nanoid (root, k)))"
    by (auto simp: ids_unique_def enforce_ids_def fl)
  have en: "enforce_ids nanoid (root, k) = (Element (node_props root) cs, k1)"
    by (simp add: enforce_ids_def fl)
  have "ids_unique r"
    if w: "withIDs_normalizeNode nanoid (normalizeNode core_normalizeNode) [] (root, k) = Inr (r, k')"
    for r k'
  proof -
    have n: "normalizeNode core_normalizeNode [] (Element (node_props root) cs) = Inr r"
      using w by (simp add: withIDs_normalizeNode_def en split: sum.splits)
    show ?thesis
      using subseq_ids_unique [OF normalizeNode_editor_ids [OF n]] normalizeNode_editor_shape [OF n]
        u en by simp
  qed
  moreover have "p \<noteq> [] \<longrightarrow> withIDs_normalizeNode nanoid inner p (root, k)
            = (case inner p root of Inl e \<Rightarrow> Inl e | Inr r \<Rightarrow> Inr (r, k))"
    by (simp add: withIDs_normalizeNode_def split: sum.splits)
  ultimately show ?thesis using u by blast
qed

lemma nanoid0_fresh: "fresh_generator nanoid0 clash_tree"
proof -
  have "inj nanoid0"
  proof (rule injI)
    fix x y assume "nanoid0 x = nanoid0 y"
    then have "length (nanoid0 x) = length (nanoid0 y)" by simp
    then show "x = y" by (simp add: nanoid0_def)
  qed
  then show ?thesis
    by (simp add: fresh_generator_def nanoid0_def clash_tree_def)
qed

theorem enforce_ids_unique_witness:
  "fresh_generator nanoid0 clash_tree \<and> ids_unique (fst (enforce_ids nanoid0 (clash_tree, 0))) \<and>
   element_ids_list (node_children (fst (enforce_ids nanoid0 (clash_tree, 0))))
     = [Some ''a'', Some ''n'', Some ''nx'', Some ''nxx'', Some ''b''] \<and>
   (\<exists>r. withIDs_normalizeNode nanoid0 (normalizeNode core_normalizeNode) [] (clash_tree, 0) = Inr (r, 3)
      \<and> ids_unique r
      \<and> element_ids_list (node_children r)
           = [Some ''a'', Some ''n'', Some ''nx'', Some ''nxx'', Some ''b''])"
proof -
  have run: "withIDs_normalizeNode nanoid0 (normalizeNode core_normalizeNode) [] (clash_tree, 0)
               = Inr (fst (enforce_ids nanoid0 (clash_tree, 0)), 3)"
    by (simp add: withIDs_normalizeNode_def enforce_ids_def clash_tree_def nanoid0_def no_props_def
          normalizeNode_def core_normalizeNode_def core_children_def node_type_def)
  show ?thesis
    using enforce_ids_unique [OF nanoid0_fresh, of 0 "[0]" core_normalizeNode] nanoid0_fresh run
    by (simp add: enforce_ids_def clash_tree_def nanoid0_def no_props_def)
qed

section \<open>Properties of the structural normalizer\<close>

lemma node_get_append:
  "node_get root (p @ q) = (case node_get root p of None \<Rightarrow> None | Some n \<Rightarrow> node_get n q)"
proof (induction root p rule: node_get.induct)
  case (1 n)
  then show ?case by simp
next
  case (2 a s i p)
  then show ?case by simp
next
  case (3 a cs i p)
  then show ?case by simp
qed

lemma node_get_Text: "node_get (Text a s) p = (if p = [] then Some (Text a s) else None)"
  by (cases p) simp_all

lemma node_get_child:
  "node_get root p = Some (Element b ds) \<Longrightarrow> i < length ds \<Longrightarrow> node_get root (p @ [i]) = Some (ds ! i)"
  by (simp add: node_get_append)

lemma modify_children_get:
  "node_get root p = Some (Element b ds) \<Longrightarrow>
   node_get (modify_children p f root) p = Some (Element b (f ds))"
  by (induction p f root rule: modify_children.induct) (auto simp: node_get_Text split: if_splits)

lemma modify_children_twice:
  "modify_children p f (modify_children p g root) = modify_children p (\<lambda>cs. f (g cs)) root"
  by (induction p g root rule: modify_children.induct) auto

lemma modify_children_cong:
  "node_get root p = Some (Element b ds) \<Longrightarrow> f ds = g ds \<Longrightarrow>
   modify_children p f root = modify_children p g root"
  by (induction p f root rule: modify_children.induct) (auto simp: node_get_Text split: if_splits)

lemma modify_children_id:
  "node_get root p = Some (Element b ds) \<Longrightarrow> f ds = ds \<Longrightarrow> modify_children p f root = root"
  by (induction p f root rule: modify_children.induct) (auto simp: node_get_Text split: if_splits)

lemma modify_as_with:
  "node_get root p = Some (Element b ds) \<Longrightarrow> modify_children p f root = with_children p (f ds) root"
  unfolding with_children_def by (rule modify_children_cong) simp_all

lemma with_children_get:
  "node_get root p = Some (Element b ds) \<Longrightarrow>
   node_get (with_children p cs root) p = Some (Element b cs)"
  unfolding with_children_def by (rule modify_children_get)

lemma with_children_same:
  "node_get root p = Some (Element b ds) \<Longrightarrow> with_children p ds root = root"
  unfolding with_children_def by (rule modify_children_id) simp_all

lemma modify_with:
  assumes "node_get root p = Some (Element b ds)"
  shows "modify_children p f (with_children p cs root) = with_children p (f cs) root"
proof -
  have "modify_children p f (with_children p cs root) = modify_children p (\<lambda>x. f cs) root"
    unfolding with_children_def by (simp add: modify_children_twice)
  then show ?thesis by (simp add: with_children_def)
qed

lemma splice_with:
  assumes "node_get root p = Some (Element b ds)" and "i < length cs"
  shows "splice_at (p @ [i]) f (with_children p cs root)
         = with_children p (take i cs @ f (cs ! i) @ drop (Suc i) cs) root"
  using assms by (simp add: splice_at_def modify_with)

lemma get_with_child:
  assumes "node_get root p = Some (Element b ds)" and "i < length cs"
  shows "node_get (with_children p cs root) (p @ [i]) = Some (cs ! i)"
  using node_get_child [OF with_children_get [OF assms(1)] assms(2)] .

lemma setNodes_with:
  assumes "node_get root p = Some (Element b ds)" and "i < length cs"
  shows "setNodes upd (p @ [i]) (with_children p cs root)
         = with_children p (cs[i := set_props upd (cs ! i)]) root"
  using assms by (simp add: setNodes_def splice_with upd_conv_take_nth_drop)

lemma removeNodes_with:
  assumes "node_get root p = Some (Element b ds)" and "i < length cs"
  shows "removeNodes (p @ [i]) (with_children p cs root)
         = with_children p (take i cs @ drop (Suc i) cs) root"
  using assms by (simp add: removeNodes_def splice_with)

lemma doFold_with:
  assumes "node_get root p = Some (Element b ds)" and "i < length cs"
  shows "doFold (cs ! i) (p @ [i]) False (with_children p cs root)
         = with_children p (cs[i := clear_folded (cs ! i)]) root"
proof (cases "pfolded (node_props (cs ! i)) = Some True")
  case True
  then show ?thesis using assms by (simp add: doFold_def setNodes_with clear_folded_def)
next
  case False
  then have "(case pfolded (node_props (cs ! i)) of None \<Rightarrow> False | Some b \<Rightarrow> b) = False"
    by (cases "pfolded (node_props (cs ! i))") auto
  then show ?thesis using False by (simp add: doFold_def clear_folded_def)
qed

lemma previous_with:
  assumes "node_get root p = Some (Element b ds)" and "i < length cs"
  shows "previous (p @ [i]) (with_children p cs root)
         = (if i = 0 then None else Some (cs ! (i - 1), p @ [i - 1]))"
  using assms by (simp add: previous_def get_with_child)

lemma clear_folded_children: "node_children (clear_folded n) = node_children n"
  by (cases n) (simp_all add: clear_folded_def)

lemma clear_folded_isText: "isText (clear_folded n) = isText n"
  by (cases n) (simp_all add: clear_folded_def)

lemma merge_into_elements:
  "\<not> isText x \<Longrightarrow> \<not> isText y \<Longrightarrow>
   merge_into x y = Some (Element (node_props x) (node_children x @ node_children y))"
  by (cases x; cases y) (simp_all add: merge_into_def)

lemma mergeNodes_with:
  assumes par: "node_get root p = Some (Element b ds)" and i: "Suc j < length cs"
    and el: "\<not> isText (cs ! Suc j)" "\<not> isText (cs ! j)"
  shows "mergeNodes (p @ [Suc j]) (with_children p cs root)
         = Inr (with_children p
              (take j cs
               @ [Element (node_props (cs ! j)) (node_children (cs ! j) @ node_children (cs ! Suc j))]
               @ drop (Suc (Suc j)) cs) root)"
proof -
  let ?m = "Element (node_props (cs ! j)) (node_children (cs ! j) @ node_children (cs ! Suc j))"
  have j: "j < length cs" using i by simp
  have sp: "splice_at (p @ [j]) (\<lambda>x. [?m]) (with_children p cs root)
      = with_children p (cs[j := ?m]) root"
    using splice_with [OF par j, of "\<lambda>x. [?m]"] j by (simp add: upd_conv_take_nth_drop)
  have rm: "removeNodes (p @ [Suc j]) (with_children p (cs[j := ?m]) root)
      = with_children p (take (Suc j) (cs[j := ?m]) @ drop (Suc (Suc j)) (cs[j := ?m])) root"
    by (rule removeNodes_with [OF par]) (use i in simp)
  have tk: "take (Suc j) (cs[j := ?m]) = take j cs @ [?m]"
    using j by (simp add: take_Suc_conv_app_nth)
  have dr: "drop (Suc (Suc j)) (cs[j := ?m]) = drop (Suc (Suc j)) cs" by simp
  have pv: "previous (p @ [Suc j]) (with_children p cs root) = Some (cs ! j, p @ [j])"
    using previous_with [OF par i] by simp
  have gt: "node_get (with_children p cs root) (p @ [Suc j]) = Some (cs ! Suc j)"
    by (rule get_with_child [OF par i])
  have mg: "merge_into (cs ! j) (cs ! Suc j) = Some ?m"
    using el by (simp add: merge_into_elements)
  show ?thesis
    by (simp add: mergeNodes_def pv gt mg sp rm tk dr)
qed

text \<open>
  Claim C4. For a container (an element) at index \<open>i\<close> among the children of its
  parent, \<open>checkBlockHeader\<close> does to the tree exactly what the repair of the
  specification says, and returns \<open>false\<close> exactly when it changed the tree: no
  children: the container is deleted; first child of the expected header type: nothing
  changes; otherwise, with a previous sibling of the same type: both are unfolded and the
  container is merged into that sibling; in every other case nothing changes.
\<close>

theorem checkBlockHeader_repair:
  assumes par: "node_get root pp = Some (Element b ds)" and i: "i < length ds"
    and el: "\<not> isText (ds ! i)" and prev_el: "0 < i \<Longrightarrow> \<not> isText (ds ! (i - 1))"
  shows "checkBlockHeader (ds ! i) (pp @ [i]) t root
         = Inr (\<not> repair_needed t i ds, modify_children pp (repair_siblings t i) root)"
proof -
  have root: "root = with_children pp ds root" using with_children_same [OF par] by simp
  have goal_eq: "modify_children pp (repair_siblings t i) root = with_children pp (repair_siblings t i ds) root"
    by (rule modify_as_with [OF par])
  show ?thesis
  proof (cases "node_children (ds ! i)")
    case Nil
    have "removeNodes (pp @ [i]) root = with_children pp (take i ds @ drop (Suc i) ds) root"
      using removeNodes_with [OF par i] root by simp
    then show ?thesis
      using Nil by (simp add: checkBlockHeader_def goal_eq repair_siblings_def repair_needed_def)
  next
    case (Cons first rest)
    show ?thesis
    proof (cases "node_type first = Some t")
      case True
      then show ?thesis using Cons
        by (simp add: checkBlockHeader_def goal_eq repair_siblings_def repair_needed_def
            with_children_same [OF par])
    next
      case False
      have prev: "previous (pp @ [i]) root = (if i = 0 then None else Some (ds ! (i - 1), pp @ [i - 1]))"
        using previous_with [OF par i] root by simp
      show ?thesis
      proof (cases i)
        case 0
        have p0: "previous (pp @ [i]) root = None" using prev 0 by simp
        have rs: "repair_siblings t i ds = ds" using Cons False 0 by (simp add: repair_siblings_def)
        have rn: "\<not> repair_needed t i ds" using Cons False 0 by (simp add: repair_needed_def)
        show ?thesis
          by (simp add: checkBlockHeader_def Cons False p0 goal_eq rs rn with_children_same [OF par])
      next
        case (Suc j)
        have pv: "previous (pp @ [Suc j]) root = Some (ds ! j, pp @ [j])"
          using prev Suc by simp
        show ?thesis
        proof (cases "node_type (ds ! j) = node_type (ds ! Suc j)")
          case diff: False
          have p1: "previous (pp @ [i]) root = Some (ds ! j, pp @ [j])" using pv Suc by simp
          have rs: "repair_siblings t i ds = ds"
            using Cons False diff Suc by (simp add: repair_siblings_def)
          have rn: "\<not> repair_needed t i ds"
            using Cons False diff Suc by (simp add: repair_needed_def)
          have ty: "node_type (ds ! j) \<noteq> node_type (ds ! i)" using diff Suc by simp
          show ?thesis
            by (simp add: checkBlockHeader_def Cons False p1 ty goal_eq rs rn
                with_children_same [OF par])
        next
          case True
          have j: "j < length ds" and sj: "Suc j < length ds" using i Suc by simp_all
          have Cons2: "node_children (ds ! Suc j) = first # rest" using Cons Suc by simp
          let ?ds1 = "ds[j := clear_folded (ds ! j)]"
          let ?ds2 = "?ds1[Suc j := clear_folded (ds ! Suc j)]"
          let ?m = "Element (node_props (clear_folded (ds ! j)))
                      (node_children (ds ! j) @ node_children (ds ! Suc j))"
          have f1: "doFold (ds ! j) (pp @ [j]) False root = with_children pp ?ds1 root"
            using doFold_with [OF par j] root by simp
          have f2: "doFold (ds ! Suc j) (pp @ [Suc j]) False (with_children pp ?ds1 root)
              = with_children pp ?ds2 root"
            using doFold_with [OF par, of "Suc j" ?ds1] sj by simp
          have e2: "?ds2 ! Suc j = clear_folded (ds ! Suc j)" "?ds2 ! j = clear_folded (ds ! j)"
            using j sj by simp_all
          have m0: "mergeNodes (pp @ [Suc j]) (with_children pp ?ds2 root)
              = Inr (with_children pp
                (take j ?ds2
                 @ [Element (node_props (?ds2 ! j))
                      (node_children (?ds2 ! j) @ node_children (?ds2 ! Suc j))]
                 @ drop (Suc (Suc j)) ?ds2) root)"
          proof (rule mergeNodes_with [OF par])
            show "Suc j < length ?ds2" using sj by simp
            show "\<not> isText (?ds2 ! Suc j)" using el Suc e2 by (simp add: clear_folded_isText)
            show "\<not> isText (?ds2 ! j)" using prev_el Suc e2 by (simp add: clear_folded_isText)
          qed
          have m: "mergeNodes (pp @ [Suc j]) (with_children pp ?ds2 root)
              = Inr (with_children pp (take j ds @ [?m] @ drop (Suc (Suc j)) ds) root)"
            unfolding m0 e2 by (simp add: clear_folded_children)
          have chk: "checkBlockHeader (ds ! Suc j) (pp @ [Suc j]) t root
              = Inr (False, with_children pp (take j ds @ [?m] @ drop (Suc (Suc j)) ds) root)"
            by (simp add: checkBlockHeader_def Cons2 pv False True f1 f2 m)
          have rs: "repair_siblings t (Suc j) ds = take j ds @ [?m] @ drop (Suc (Suc j)) ds"
            using Cons2 False True by (simp add: repair_siblings_def)
          have rn: "repair_needed t (Suc j) ds" using Cons2 False True by (simp add: repair_needed_def)
          show ?thesis unfolding Suc chk goal_eq [unfolded Suc] rs using rn by simp
        qed
      qed
    qed
  qed
qed

theorem checkBlockHeader_repair_witness:
  "node_get two_scenes_tree [0, 2] = Some headless_scene \<and>
   checkBlockHeader headless_scene [0, 2] ''hscene'' two_scenes_tree
     = Inr (False, merged_scenes_tree)"
  using checkBlockHeader_repair [of two_scenes_tree "[0]"
      "no_props\<lparr>ptype := Some ''part'', pname := Some ''A''\<rparr>"
      "[block ''hpart'' [leaf_text ''A''], first_scene, headless_scene]" 2 "''hscene''"]
  by (simp add: two_scenes_tree_def merged_scenes_tree_def first_scene_def headless_scene_def
      named_block_def block_def leaf_text_def no_props_def repair_needed_def repair_siblings_def
      clear_folded_def node_type_def numeral_2_eq_2)

lemma normalize_more_fuel:
  "normalize n nn r = Inr (Some t) \<Longrightarrow> normalize (n + k) nn r = Inr (Some t)"
proof (induction n arbitrary: r)
  case 0
  then show ?case by simp
next
  case (Suc n)
  show ?case
  proof (cases "first_repair nn r (rev (paths_of r))")
    case (Inl e)
    then show ?thesis using Suc.prems by simp
  next
    case (Inr x)
    show ?thesis
    proof (cases x)
      case None
      then show ?thesis using Suc.prems Inr by simp
    next
      case (Some r')
      then have "normalize n nn r' = Inr (Some t)" using Suc.prems Inr by simp
      then have "normalize (n + k) nn r' = Inr (Some t)" by (rule Suc.IH)
      then show ?thesis using Inr Some by simp
    qed
  qed
qed

text \<open>
  Claim C8, as amended. During normalization of a part at depth 1 whose header check
  passes (its first child is an \<open>hpart\<close>, or there is no previous sibling of type
  \<open>part\<close> to merge into) and that has a second child, the first child of that second
  child is verified to be of type \<open>hscene\<close> and is assigned type \<open>hscene\<close> if it is
  not; the second child itself is left as it is.
\<close>

theorem normalizeNode_part_second_child:
  assumes part: "node_get root [i] = Some (Element a (c0 # c1 # cs))"
    and ty: "ptype a = Some ''part''"
    and pass: "node_type c0 = Some ''hpart'' \<or>
               (case previous [i] root of None \<Rightarrow> True
                | Some (prev, pp) \<Rightarrow> node_type prev \<noteq> Some ''part'')"
    and kids: "node_children c1 = h # hs"
  shows "normalizeNode inner [i] root =
           (if node_type h = Some ''hscene'' then inner [i] root
            else Inr (setNodes (\<lambda>a. a\<lparr>ptype := Some ''hscene''\<rparr>) [i, 1, 0] root))"
proof -
  let ?node = "Element a (c0 # c1 # cs)"
  have nt: "node_type ?node = Some ''part''" using ty by (simp add: node_type_def)
  have cbh: "checkBlockHeader ?node [i] ''hpart'' root = Inr (True, root)"
  proof (cases "node_type c0 = Some ''hpart''")
    case True
    then show ?thesis by (simp add: checkBlockHeader_def)
  next
    case False
    with pass have "case previous [i] root of None \<Rightarrow> True
                | Some (prev, pp) \<Rightarrow> node_type prev \<noteq> Some ''part''" by simp
    then show ?thesis using False nt
      by (auto simp: checkBlockHeader_def split: option.splits)
  qed
  have cfh: "checkFirstHeader c1 [i, 1] ''hscene'' root =
      (if node_type h = Some ''hscene'' then Inr (True, root)
       else Inr (False, setNodes (\<lambda>a. a\<lparr>ptype := Some ''hscene''\<rparr>) [i, 1, 0] root))"
    using kids by (simp add: checkFirstHeader_def)
  show ?thesis
    using cfh by (simp add: normalizeNode_def part nt cbh and_then_def)
qed

theorem normalizeNode_part_second_child_witness:
  "node_get headless_scene_tree [0]
     = Some (named_block ''part'' ''A''
         [block ''hpart'' [leaf_text ''A''], block ''scene'' [block ''p'' [leaf_text ''x'']]]) \<and>
   normalizeNode core_normalizeNode [0] headless_scene_tree
     = Inr (setNodes (\<lambda>a. a\<lparr>ptype := Some ''hscene''\<rparr>) [0, 1, 0] headless_scene_tree) \<and>
   setNodes (\<lambda>a. a\<lparr>ptype := Some ''hscene''\<rparr>) [0, 1, 0] headless_scene_tree
     = relabelled_scene_tree"
  using normalizeNode_part_second_child [of headless_scene_tree 0
      "no_props\<lparr>ptype := Some ''part'', pname := Some ''A''\<rparr>"
      "block ''hpart'' [leaf_text ''A'']" "block ''scene'' [block ''p'' [leaf_text ''x'']]" "[]"
      "block ''p'' [leaf_text ''x'']" "[]" core_normalizeNode]
  by (simp add: headless_scene_tree_def relabelled_scene_tree_def named_block_def block_def
      leaf_text_def no_props_def node_type_def setNodes_def splice_at_def)

text \<open>
  Claim C8 as stated fails: the second child of this part is a scene, not an \<open>hscene\<close>;
  normalization of the part neither objects to it nor assigns it the type \<open>hscene\<close>.
  It is the scene's first child that becomes an \<open>hscene\<close>.
\<close>

theorem normalizeNode_part_second_child_kept:
  "map_option node_type (node_get headless_scene_tree [0, 1]) = Some (Some ''scene'') \<and>
   normalizeNode core_normalizeNode [0] headless_scene_tree = Inr relabelled_scene_tree \<and>
   map_option node_type (node_get relabelled_scene_tree [0, 1]) = Some (Some ''scene'') \<and>
   map_option node_type (node_get relabelled_scene_tree [0, 1, 0]) = Some (Some ''hscene'')"
  by code_simp

section \<open>Properties of the fold guard and of the markup shortcuts\<close>

lemma first_match_filter:
  "first_match m root ps =
     (case filter (\<lambda>p. case node_get root p of None \<Rightarrow> False
                        | Some n \<Rightarrow> p \<noteq> [] \<and> \<not> isText n \<and> m n) ps of
        [] \<Rightarrow> None
      | p # qs \<Rightarrow> map_option (\<lambda>n. (n, p)) (node_get root p))"
  by (induction ps) (auto split: option.splits)

lemma above_folded:
  "above is_folded ed =
     (case folded_ancestors ed of
        [] \<Rightarrow> None
      | p # qs \<Rightarrow> map_option (\<lambda>n. (n, p)) (node_get (root_of ed) p))"
  by (cases "selection ed") (simp_all add: above_def folded_ancestors_def first_match_filter)

lemma folded_ancestors_head:
  assumes "folded_ancestors ed = p # qs"
  shows "\<exists>n. node_get (root_of ed) p = Some n \<and> p \<noteq> [] \<and> \<not> isText n \<and> is_folded n"
proof -
  have "p \<in> set (folded_ancestors ed)" using assms by simp
  then show ?thesis
    by (cases "selection ed") (auto simp: folded_ancestors_def split: option.splits)
qed

lemma unfoldSelection_eq:
  "unfoldSelection ed = (folded_ancestors ed \<noteq> [], unfolded ed)"
proof (cases "folded_ancestors ed")
  case Nil
  then show ?thesis by (simp add: unfoldSelection_def above_folded unfolded_def)
next
  case (Cons p qs)
  from folded_ancestors_head [OF Cons] obtain n where
    n: "node_get (root_of ed) p = Some n" "is_folded n" by blast
  have "doFold n p False (root_of ed) = setNodes (\<lambda>a. a\<lparr>pfolded := Some False\<rparr>) p (root_of ed)"
    using n(2) by (simp add: doFold_def is_folded_def)
  then show ?thesis
    using Cons n by (simp add: unfoldSelection_def above_folded unfolded_def unfold_at_def)
qed

lemma node_get_parent:
  assumes "node_get root (pp @ [i]) = Some n"
  shows "\<exists>b ds. node_get root pp = Some (Element b ds) \<and> i < length ds \<and> ds ! i = n"
proof (cases "node_get root pp")
  case None
  then show ?thesis using assms by (simp add: node_get_append)
next
  case (Some m)
  then have "node_get m [i] = Some n" using assms by (simp add: node_get_append)
  then show ?thesis using Some by (cases m) (auto split: if_splits)
qed

lemma node_get_setNodes:
  assumes "node_get root p = Some n" and "p \<noteq> []"
  shows "node_get (setNodes upd p root) p = Some (set_props upd n)"
proof -
  obtain pp i where p: "p = pp @ [i]" using assms(2) by (metis rev_exhaust)
  obtain b ds where par: "node_get root pp = Some (Element b ds)" "i < length ds" "ds ! i = n"
    using node_get_parent assms(1) p by blast
  have "setNodes upd (pp @ [i]) (with_children pp ds root)
      = with_children pp (ds[i := set_props upd (ds ! i)]) root"
    by (rule setNodes_with [OF par(1) par(2)])
  then have "setNodes upd p root = with_children pp (ds[i := set_props upd n]) root"
    using with_children_same [OF par(1)] p par(3) by simp
  then show ?thesis
    using get_with_child [OF par(1), of i "ds[i := set_props upd n]"] par(2) p by simp
qed

lemma modify_children_root: "\<exists>cs'. modify_children p f (Element a cs) = Element a cs'"
  by (cases p) simp_all

lemma root_of_setNodes:
  "p \<noteq> [] \<Longrightarrow> root_of (with_root ed (setNodes upd p (root_of ed))) = setNodes upd p (root_of ed)"
proof -
  assume "p \<noteq> []"
  obtain cs' where "modify_children (butlast p)
       (\<lambda>cs. if last p < length cs
             then take (last p) cs @ [set_props upd (cs ! last p)] @ drop (Suc (last p)) cs
             else cs) (Element no_props (children ed)) = Element no_props cs'"
    using modify_children_root by blast
  then show ?thesis using \<open>p \<noteq> []\<close>
    by (simp add: root_of_def with_root_def setNodes_def splice_at_def)
qed

lemma set_unfolded: "is_folded (set_props (\<lambda>a. a\<lparr>pfolded := Some False\<rparr>) n) = False"
  by (cases n) (simp_all add: is_folded_def)

lemma prefix_longest_common_prefix:
  "prefix p (longest_common_prefix xs ys) \<longleftrightarrow> prefix p xs \<and> prefix p ys"
proof
  assume "prefix p (longest_common_prefix xs ys)"
  then show "prefix p xs \<and> prefix p ys"
    using longest_common_prefix_prefix1 [of xs ys] longest_common_prefix_prefix2 [of xs ys]
    by (meson prefix_order.trans)
next
  assume "prefix p xs \<and> prefix p ys"
  then show "prefix p (longest_common_prefix xs ys)"
    by (simp add: longest_common_prefix_max_prefix)
qed

lemma levels_up_set:
  "p \<in> set (levels_up sel) \<longleftrightarrow>
     strict_prefix p (at_path (anchor sel)) \<and> strict_prefix p (at_path (focus sel))"
  by (auto simp: levels_up_def prefix_longest_common_prefix strict_prefix_def)

lemma prefixes_lengths: "sorted_wrt (\<lambda>p q. length p < length q) (prefixes xs)"
  by (induction xs) (auto simp: sorted_wrt_map)

lemma levels_up_lengths: "sorted_wrt (\<lambda>p q. length q < length p) (levels_up sel)"
  unfolding levels_up_def
  by (rule sorted_wrt_filter) (simp add: sorted_wrt_rev prefixes_lengths)

text \<open>
  The folded ancestors of the selection are the folded elements whose paths are proper
  prefixes of the paths of both ends of the selection; the first one listed is the
  lowest.
\<close>

lemma folded_ancestors_iff:
  "p \<in> set (folded_ancestors ed) \<longleftrightarrow>
     (\<exists>sel n. selection ed = Some sel \<and>
        strict_prefix p (at_path (anchor sel)) \<and> strict_prefix p (at_path (focus sel)) \<and>
        node_get (root_of ed) p = Some n \<and> p \<noteq> [] \<and> \<not> isText n \<and> is_folded n)"
  by (cases "selection ed") (auto simp: folded_ancestors_def levels_up_set split: option.splits)

lemma folded_ancestors_lowest:
  assumes "folded_ancestors ed = p # ps" and "q \<in> set ps"
  shows "length q < length p"
proof (cases "selection ed")
  case None
  then show ?thesis using assms by (simp add: folded_ancestors_def)
next
  case (Some sel)
  have "sorted_wrt (\<lambda>p q. length q < length p) (folded_ancestors ed)"
    unfolding folded_ancestors_def Some by (simp add: sorted_wrt_filter levels_up_lengths)
  then show ?thesis using assms by simp
qed

text \<open>
  Claim C5. For every editor state and whatever the wrapped operations do: the guarded
  insert-line-break performs the wrapped break exactly when the selection has no folded
  ancestor; when it has one, the folded flag of the lowest such ancestor is cleared and
  the wrapped break is not performed. The guarded insert-text, delete-backward and
  delete-forward clear the folded flag of that ancestor, if there is one, and then
  always perform the wrapped operation.
\<close>

theorem withProtectFolds_guard:
  "(folded_ancestors ed = [] \<longrightarrow> withProtectFolds_insertBreak ib ed = ib ed) \<and>
   (\<forall>p ps. folded_ancestors ed = p # ps \<longrightarrow>
      withProtectFolds_insertBreak ib ed = Inr (unfold_at p ed) \<and>
      map_option is_folded (node_get (root_of ed) p) = Some True \<and>
      map_option is_folded (node_get (root_of (unfold_at p ed)) p) = Some False) \<and>
   withProtectFolds_insertText it str opts ed = it str opts (unfolded ed) \<and>
   withProtectFolds_deleteBackward db opts ed = db opts (unfolded ed) \<and>
   withProtectFolds_deleteForward df opts ed = df opts (unfolded ed)"
proof -
  have a: "folded_ancestors ed = [] \<longrightarrow> withProtectFolds_insertBreak ib ed = ib ed"
    by (simp add: withProtectFolds_insertBreak_def unfoldSelection_eq unfolded_def)
  have b: "withProtectFolds_insertBreak ib ed = Inr (unfold_at p ed) \<and>
      map_option is_folded (node_get (root_of ed) p) = Some True \<and>
      map_option is_folded (node_get (root_of (unfold_at p ed)) p) = Some False"
    if "folded_ancestors ed = p # ps" for p ps
  proof -
    from folded_ancestors_head [OF that] obtain n where
      n: "node_get (root_of ed) p = Some n" "p \<noteq> []" "is_folded n" by blast
    have "node_get (root_of (unfold_at p ed)) p = Some (set_props (\<lambda>a. a\<lparr>pfolded := Some False\<rparr>) n)"
      unfolding unfold_at_def root_of_setNodes [OF n(2)] by (rule node_get_setNodes [OF n(1) n(2)])
    then show ?thesis using that n
      by (simp add: withProtectFolds_insertBreak_def unfoldSelection_eq unfolded_def set_unfolded)
  qed
  have c: "withProtectFolds_insertText it str opts ed = it str opts (unfolded ed)"
    by (simp add: withProtectFolds_insertText_def unfoldSelection_eq)
  have d: "withProtectFolds_deleteBackward db opts ed = db opts (unfolded ed)"
    by (simp add: withProtectFolds_deleteBackward_def unfoldSelection_eq)
  have e: "withProtectFolds_deleteForward df opts ed = df opts (unfolded ed)"
    by (simp add: withProtectFolds_deleteForward_def unfoldSelection_eq)
  show ?thesis using a b c d e by blast
qed

theorem withProtectFolds_guard_witness:
  "folded_ancestors (folding_editor True) = [[0, 1]] \<and>
   withProtectFolds_insertBreak wrapped_insertBreak (folding_editor True)
     = Inr (folding_editor False) \<and>
   folded_ancestors (folding_editor False) = [] \<and>
   withProtectFolds_insertBreak wrapped_insertBreak (folding_editor False)
     = wrapped_insertBreak (folding_editor False)"
proof -
  have a: "folded_ancestors (folding_editor True) = [[0, 1]]" by code_simp
  have b: "unfold_at [0, 1] (folding_editor True) = folding_editor False" by code_simp
  have c: "folded_ancestors (folding_editor False) = []" by code_simp
  show ?thesis
    using withProtectFolds_guard [where ed = "folding_editor True" and ib = wrapped_insertBreak
        and it = "\<lambda>t (u::unit) e. Inr e" and str = "[]" and opts = "()"
        and db = "\<lambda>(u::unit) e. Inr e" and df = "\<lambda>(u::unit) e. Inr e"]
      withProtectFolds_guard [where ed = "folding_editor False" and ib = wrapped_insertBreak
        and it = "\<lambda>t (u::unit) e. Inr e" and str = "[]" and opts = "()"
        and db = "\<lambda>(u::unit) e. Inr e" and df = "\<lambda>(u::unit) e. Inr e"]
      a b c
    by simp
qed

lemma longest_common_prefix_same: "longest_common_prefix xs xs = xs"
  by (induction xs) simp_all

lemma levels_up_caret:
  "levels_up (caret (path @ [j]) off) = rev (prefixes path)"
proof -
  have "filter (\<lambda>p. p \<noteq> path @ [j]) (rev (prefixes path)) = rev (prefixes path)"
    by (rule filter_True) (auto simp: prefix_def)
  then show ?thesis by (simp add: levels_up_def caret_def longest_common_prefix_same)
qed

lemma rev_prefixes_nonempty: "path \<noteq> [] \<Longrightarrow> rev (prefixes path) = path # rev (prefixes (butlast path))"
  by (cases path rule: rev_cases) simp_all

lemma above_block:
  assumes "selection ed = Some (caret (path @ [j]) off)"
    and "node_get (root_of ed) path = Some (Element a cs)" and "path \<noteq> []"
  shows "above (\<lambda>n. True) ed = Some (Element a cs, path)"
  using assms by (simp add: above_def levels_up_caret rev_prefixes_nonempty)

lemma caret_anchor: "at_path (anchor (caret p off)) = p" "offset (anchor (caret p off)) = off"
  by (simp_all add: caret_def)

lemma caret_collapsed: "isCollapsed (caret p off)"
  by (simp add: isCollapsed_def caret_def)

lemma js_in_SHORTCUTS:
  "js_in key SHORTCUTS \<longleftrightarrow>
     key \<in> {''** '', ''## '', ''>> '', ''// '', ''!! ''} \<or> key \<in> set Object_prototype"
  by (auto simp: js_in_def SHORTCUTS_def)

text \<open>
  What \<open>editor.insertText\<close> of \<open>withMarkup\<close> does for a caret at offset \<open>off\<close> in
  the text \<open>s\<close>, the \<open>j\<close>-th child of the block at \<open>path\<close>: with \<open>key\<close> the text of
  the block before the caret followed by the inserted text, it deletes the text before
  the caret and gives the block the type that \<open>SHORTCUTS\<close> holds for \<open>key\<close> when
  \<open>key in SHORTCUTS\<close>, and inserts the text otherwise.
\<close>

lemma withMarkup_insertText_collapsed:
  assumes sel: "selection ed = Some (caret (path @ [j]) off)"
    and blk: "node_get (root_of ed) path = Some (Element a cs)" and ne: "path \<noteq> []"
    and leafj: "j < length cs" "cs ! j = Text b s"
    and start: "first_leaf (Element a cs) = Some lp"
    and key: "key = concat (map node_string (take j cs)) @ take off s @ text"
  shows "withMarkup_insertText insertText text ed =
     (if js_in key SHORTCUTS
      then Inr \<lparr>children = node_children
                 (splice_at path
                    (\<lambda>n. [Element (case map_of SHORTCUTS key of None \<Rightarrow> a
                                    | Some t \<Rightarrow> a\<lparr>ptype := Some t\<rparr>)
                             (Text b (drop off s) # drop (Suc j) cs)])
                    (root_of ed)),
               selection = Some (caret (path @ [0]) 0)\<rparr>
      else insertText text ed)"
proof -
  have ab: "above (\<lambda>n. True) ed = Some (Element a cs, path)"
    by (rule above_block [OF sel blk ne])
  have tb: "text_before (Element a cs) [j] off @ text = key"
    using leafj key by simp
  have db: "delete_before (Element a cs) [j] off = Element a (Text b (drop off s) # drop (Suc j) cs)"
    using leafj by simp
  show ?thesis
    unfolding withMarkup_insertText_def sel
    by (simp add: caret_collapsed ab caret_anchor start tb db del: first_leaf.simps
        text_before.simps delete_before.simps)
qed

text \<open>
  Typing \<open>"** "\<close> at the start of an empty paragraph: the paragraph becomes an
  \<open>hpart\<close>, the two typed asterisks are deleted and the blank is not inserted.
\<close>

lemma withMarkup_insertText_asterisks:
  "withMarkup_insertText insertText '' '' (story_editor ''p'' ''**'' 2)
     = Inr (story_editor ''hpart'' [] 0)"
  by code_simp

text \<open>
  Claim C6 at the failing input: the caret stands at the end of a paragraph that holds
  "toStrin" and the character "g" is typed. The string "toString" is none of the five
  trigger sequences, yet \<open>"toString" in SHORTCUTS\<close> holds (the name is inherited from
  \<open>Object.prototype\<close>): the text "toStrin" is deleted, the type of the block stays
  \<open>p\<close>, and "g" is not inserted (the wrapped \<open>insertText\<close> is not called).
\<close>

theorem withMarkup_insertText_inherited_key:
  "withMarkup_insertText insertText ''g'' (story_editor ''p'' ''toStrin'' 7)
     = Inr (story_editor ''p'' [] 0) \<and>
   ''toString'' \<notin> set (map fst SHORTCUTS) \<and> js_in ''toString'' SHORTCUTS"
  by code_simp

text \<open>
  Claim C7, as amended. For every collapsed selection in a text of a block whose type
  \<open>t\<close> has a successor style \<open>t'\<close> (\<open>hpart\<close> to \<open>hscene\<close>; \<open>hscene\<close>,
  \<open>synopsis\<close> and \<open>missing\<close> to \<open>p\<close>), unless the block is an empty \<open>synopsis\<close> or
  \<open>missing\<close> block, \<open>editor.insertBreak\<close> of \<open>withMarkup\<close> splits the block at the
  caret, gives the second half the type \<open>t'\<close> and puts the caret at its start; the
  wrapped \<open>insertBreak\<close> is not called.
\<close>

theorem withMarkup_insertBreak_style_after:
  assumes sel: "selection ed = Some (caret (path @ [j]) off)"
    and blk: "node_get (root_of ed) path = Some (Element a cs)" and ne: "path \<noteq> []"
    and leafj: "j < length cs" "cs ! j = Text b s"
    and ty: "ptype a = Some t" and succ: "map_of STYLEAFTER t = Some t'"
    and nonempty: "\<not> (t \<in> set RESETEMPTY \<and> node_string (Element a cs) = [])"
  shows "withMarkup_insertBreak insertBreak ed =
     Inr \<lparr>children = node_children
            (splice_at path
               (\<lambda>n. [Element a (take j cs @ [Text b (take off s)]),
                      Element (a\<lparr>ptype := Some t'\<rparr>) (Text b (drop off s) # drop (Suc j) cs)])
               (root_of ed)),
          selection = Some (caret (butlast path @ [Suc (last path), 0]) 0)\<rparr>"
proof -
  have ab: "above (\<lambda>n. True) ed = Some (Element a cs, path)"
    by (rule above_block [OF sel blk ne])
  have nt: "node_type (Element a cs) = Some t" using ty by (simp add: node_type_def)
  have "t \<in> set (map fst STYLEAFTER)" using succ by (metis map_of_eq_None_iff option.distinct(1) set_map)
  then have jin: "js_in t STYLEAFTER" by (simp add: js_in_def)
  have sp: "split_block (Element a cs) j off
      = Some (Element a (take j cs @ [Text b (take off s)]),
              Element a (Text b (drop off s) # drop (Suc j) cs))"
    using leafj by (simp add: split_block_def)
  have re: "(t \<in> set RESETEMPTY \<and> node_string (Element a cs) = []) = False"
    using nonempty by blast
  show ?thesis
    unfolding withMarkup_insertBreak_def sel
    by (simp add: caret_collapsed ab nt jin sp succ caret_anchor re del: node_string.simps)
qed

theorem withMarkup_insertBreak_style_after_witness:
  "withMarkup_insertBreak wrapped_insertBreak heading_editor = Inr heading_paragraph_editor"
proof -
  have "withMarkup_insertBreak wrapped_insertBreak heading_editor =
     Inr \<lparr>children = node_children
            (splice_at [0, 1, 0]
               (\<lambda>n. [Element (no_props\<lparr>ptype := Some ''hscene''\<rparr>)
                        (take 0 [leaf_text ''Ch1''] @ [Text no_props (take 3 ''Ch1'')]),
                      Element (no_props\<lparr>ptype := Some ''hscene'', ptype := Some ''p''\<rparr>)
                        (Text no_props (drop 3 ''Ch1'') # drop (Suc 0) [leaf_text ''Ch1''])])
               (root_of heading_editor)),
          selection = Some (caret (butlast [0, 1, 0] @ [Suc (last [0, 1, 0]), 0]) 0)\<rparr>"
    by (rule withMarkup_insertBreak_style_after [where t = "''hscene''"])
      (simp_all add: heading_editor_def root_of_def named_block_def block_def leaf_text_def
        STYLEAFTER_def RESETEMPTY_def)
  also have "\<dots> = Inr heading_paragraph_editor"
    by (simp add: heading_editor_def heading_paragraph_editor_def root_of_def named_block_def
        block_def leaf_text_def splice_at_def no_props_def)
  finally show ?thesis .
qed

text \<open>
  Claim C7 as stated fails in an empty \<open>synopsis\<close> block: its type has the successor
  style \<open>p\<close>, but a line break does not split it; the block becomes a paragraph and
  stays the only block after the scene's header.
\<close>

theorem withMarkup_insertBreak_empty_synopsis:
  "map_of STYLEAFTER ''synopsis'' = Some ''p'' \<and>
   withMarkup_insertBreak wrapped_insertBreak (story_editor ''synopsis'' [] 0)
     = Inr (story_editor ''p'' [] 0)"
  by code_simp

section \<open>Normalization never adds text\<close>

lemma text_length_simps [simp]:
  "text_length (Text a s) = length s"
  "text_length (Element a cs) = texts_length cs"
  by (simp_all add: text_length_def texts_length_def)

lemma texts_length_simps [simp]:
  "texts_length [] = 0"
  "texts_length (c # cs) = text_length c + texts_length cs"
  "texts_length (xs @ ys) = texts_length xs + texts_length ys"
  by (simp_all add: texts_length_def text_length_def)

lemma texts_length_split:
  "i < length cs \<Longrightarrow> texts_length cs = texts_length (take i cs) + text_length (cs ! i) + texts_length (drop (Suc i) cs)"
proof -
  assume "i < length cs"
  then have "cs = take i cs @ cs ! i # drop (Suc i) cs" by (rule id_take_nth_drop)
  then have "texts_length cs = texts_length (take i cs @ cs ! i # drop (Suc i) cs)" by simp
  then show ?thesis by simp
qed

lemma texts_length_update:
  "i < length cs \<Longrightarrow> text_length m \<le> text_length (cs ! i) \<Longrightarrow> texts_length (cs[i := m]) \<le> texts_length cs"
  by (simp add: upd_conv_take_nth_drop texts_length_split [of i cs])

lemma modify_children_shrinks:
  "(\<forall>cs. texts_length (f cs) \<le> texts_length cs) \<Longrightarrow>
   text_length (modify_children p f root) \<le> text_length root"
  by (induction p f root rule: modify_children.induct) (simp_all add: texts_length_update)

lemma splice_at_shrinks:
  assumes "\<forall>n. texts_length (f n) \<le> text_length n"
  shows "text_length (splice_at p f root) \<le> text_length root"
proof (cases "p = []")
  case True
  then show ?thesis by (simp add: splice_at_def)
next
  case False
  have "texts_length (if last p < length cs
           then take (last p) cs @ f (cs ! last p) @ drop (Suc (last p)) cs else cs)
        \<le> texts_length cs" for cs
    using assms by (simp add: texts_length_split [of "last p" cs])
  then show ?thesis using False
    by (simp add: splice_at_def modify_children_shrinks)
qed

lemma set_props_length [simp]: "text_length (set_props upd n) = text_length n"
  by (cases n) simp_all

lemma setNodes_shrinks: "text_length (setNodes upd p root) \<le> text_length root"
  unfolding setNodes_def by (rule splice_at_shrinks) simp

lemma removeNodes_shrinks: "text_length (removeNodes p root) \<le> text_length root"
  unfolding removeNodes_def by (rule splice_at_shrinks) simp

lemma wrapNodes_shrinks: "text_length (wrapNodes t p root) \<le> text_length root"
  unfolding wrapNodes_def by (rule splice_at_shrinks) simp

lemma unwrapNodes_shrinks: "text_length (unwrapNodes p root) \<le> text_length root"
  unfolding unwrapNodes_def by (rule splice_at_shrinks) (simp split: node.splits)

lemma lift_child_length: "texts_length (lift_child i parent) \<le> text_length parent"
proof (cases parent)
  case (Text a s)
  then show ?thesis by (simp add: lift_child_def)
next
  case (Element a cs)
  show ?thesis
  proof (cases "i < length cs")
    case False
    then show ?thesis using Element by (simp add: lift_child_def)
  next
    case True
    have sp: "texts_length cs = texts_length (take i cs) + text_length (cs ! i) + texts_length (drop (Suc i) cs)"
      by (rule texts_length_split [OF True])
    have tl0: "i = 0 \<Longrightarrow> tl cs = drop (Suc i) cs" by (simp add: drop_Suc)
    have bl: "i = length cs - 1 \<Longrightarrow> butlast cs = take i cs" by (simp add: butlast_conv_take)
    have last: "i = length cs - 1 \<Longrightarrow> drop (Suc i) cs = []" using True by simp
    show ?thesis
      using Element True sp tl0 bl last
      by (auto simp add: lift_child_def)
  qed
qed

lemma liftNodes_shrinks: "text_length (liftNodes p root) \<le> text_length root"
  unfolding liftNodes_def by (simp add: splice_at_shrinks lift_child_length)

lemma doFold_shrinks: "text_length (doFold n p b root) \<le> text_length root"
  by (simp add: doFold_def setNodes_shrinks)

lemma with_children_shrinks:
  "node_get root pp = Some (Element b ds) \<Longrightarrow> texts_length L \<le> texts_length ds \<Longrightarrow>
   text_length (with_children pp L root) \<le> text_length root"
  unfolding with_children_def
  by (induction pp "\<lambda>_::node list. L" root rule: modify_children.induct)
    (auto simp: node_get_Text texts_length_update split: if_splits)

lemma merge_into_length:
  "merge_into x y = Some m \<Longrightarrow> text_length m = text_length x + text_length y"
  by (cases x; cases y) (auto simp: merge_into_def)

lemma mergeNodes_shrinks:
  assumes "mergeNodes p root = Inr r"
  shows "text_length r \<le> text_length root"
proof (cases "previous p root")
  case None
  then show ?thesis using assms by (simp add: mergeNodes_def)
next
  case (Some pr)
  obtain prev ppath where pr: "pr = (prev, ppath)" by (cases pr)
  have pne: "p \<noteq> []" and l0: "last p \<noteq> 0"
    using Some by (auto simp: previous_def split: if_splits)
  obtain j where j: "last p = Suc j" using l0 by (cases "last p") simp_all
  define pp where "pp = butlast p"
  have p: "p = pp @ [Suc j]" using pne j pp_def by (metis append_butlast_last_id)
  have pv: "ppath = pp @ [j]" "node_get root (pp @ [j]) = Some prev"
    using Some pr p by (auto simp: previous_def split: option.splits)
  obtain b ds where par: "node_get root pp = Some (Element b ds)" "j < length ds" "ds ! j = prev"
    using node_get_parent [OF pv(2)] by blast
  show ?thesis
  proof (cases "node_get root p")
    case None
    then show ?thesis using assms Some pr by (simp add: mergeNodes_def)
  next
    case n: (Some n)
    obtain b' ds' where par2: "node_get root pp = Some (Element b' ds')" "Suc j < length ds'"
        "ds' ! Suc j = n"
      using node_get_parent [of root pp "Suc j" n] n p by auto
    have sj: "Suc j < length ds" and nn: "ds ! Suc j = n" using par par2 by simp_all
    obtain m where m: "merge_into prev n = Some m"
      using assms Some pr n by (cases "merge_into prev n") (simp_all add: mergeNodes_def)
    have r: "r = removeNodes p (splice_at ppath (\<lambda>x. [m]) root)"
      using assms Some pr n m by (simp add: mergeNodes_def)
    have root: "root = with_children pp ds root" using with_children_same [OF par(1)] by simp
    have sp: "splice_at (pp @ [j]) (\<lambda>x. [m]) root = with_children pp (ds[j := m]) root"
      using splice_with [OF par(1) par(2), of "\<lambda>x. [m]" ] root par(2)
      by (simp add: upd_conv_take_nth_drop)
    have rm: "removeNodes (pp @ [Suc j]) (with_children pp (ds[j := m]) root)
        = with_children pp (take (Suc j) (ds[j := m]) @ drop (Suc (Suc j)) (ds[j := m])) root"
      by (rule removeNodes_with [OF par(1)]) (use sj in simp)
    have tk: "take (Suc j) (ds[j := m]) = take j ds @ [m]"
      using par(2) by (simp add: take_Suc_conv_app_nth)
    have r2: "r = with_children pp (take j ds @ [m] @ drop (Suc (Suc j)) ds) root"
      using r p pv(1) sp rm tk by simp
    have "drop (Suc j) ds = ds ! Suc j # drop (Suc (Suc j)) ds"
      using sj by (simp add: Cons_nth_drop_Suc)
    then have "texts_length ds = texts_length (take j ds) + text_length prev
        + (text_length n + texts_length (drop (Suc (Suc j)) ds))"
      using texts_length_split [OF par(2)] par(3) nn by simp
    then have "texts_length (take j ds @ [m] @ drop (Suc (Suc j)) ds) \<le> texts_length ds"
      using merge_into_length [OF m] by simp
    then show ?thesis unfolding r2 by (rule with_children_shrinks [OF par(1)])
  qed
qed

lemma fix_texts_length: "texts_length (fix_texts cs) = texts_length cs"
  by (induction cs rule: fix_texts.induct) simp_all

lemma filter_length: "texts_length (filter P cs) \<le> texts_length cs"
  by (induction cs) simp_all

lemma core_children_length: "texts_length (core_children b cs) \<le> texts_length cs"
  by (simp add: core_children_def fix_texts_length filter_length)

lemma core_shrinking: "shrinking core_normalizeNode"
  by (auto simp: shrinking_def core_normalizeNode_def core_children_length
      intro!: modify_children_shrinks)

lemma and_then_shrinks:
  assumes "and_then c k = Inr r'"
    and "\<And>ok r. c = Inr (ok, r) \<Longrightarrow> text_length r \<le> n"
    and "\<And>r r'. k r = Inr r' \<Longrightarrow> text_length r' \<le> text_length r"
  shows "text_length r' \<le> n"
proof (cases c)
  case (Inl e)
  then show ?thesis using assms(1) by (simp add: and_then_def)
next
  case (Inr x)
  obtain ok r where x: "x = (ok, r)" by (cases x)
  show ?thesis
  proof (cases ok)
    case True
    then have "k r = Inr r'" using assms(1) Inr x by (simp add: and_then_def)
    then have "text_length r' \<le> text_length r" by (rule assms(3))
    moreover have "text_length r \<le> n" using assms(2) Inr x by simp
    ultimately show ?thesis by simp
  next
    case False
    then have "r' = r" using assms(1) Inr x by (simp add: and_then_def)
    then show ?thesis using assms(2) Inr x by simp
  qed
qed

lemma checkParent_shrinks:
  "checkParent node p t root = Inr (ok, r) \<Longrightarrow> text_length r \<le> text_length root"
  by (auto simp: checkParent_def wrapNodes_shrinks split: option.splits if_splits)

lemma checkIsFirst_shrinks:
  "checkIsFirst node p t root = Inr (ok, r) \<Longrightarrow> text_length r \<le> text_length root"
  by (auto simp: checkIsFirst_def split: if_splits
      intro: order_trans [OF liftNodes_shrinks wrapNodes_shrinks])

lemma updateParentName_shrinks:
  "updateParentName node p root = Inr (ok, r) \<Longrightarrow> text_length r \<le> text_length root"
  by (auto simp: updateParentName_def setNodes_shrinks split: option.splits if_splits)

lemma checkFirstHeader_shrinks:
  "checkFirstHeader blk p t root = Inr (ok, r) \<Longrightarrow> text_length r \<le> text_length root"
  by (auto simp: checkFirstHeader_def setNodes_shrinks split: list.splits if_splits)

lemma checkBlockHeader_shrinks:
  assumes "checkBlockHeader blk p t root = Inr (ok, r)"
  shows "text_length r \<le> text_length root"
proof (cases "node_children blk")
  case Nil
  then show ?thesis using assms by (auto simp: checkBlockHeader_def removeNodes_shrinks)
next
  case (Cons first rest)
  show ?thesis
  proof (cases "node_type first = Some t")
    case True
    then show ?thesis using assms Cons by (simp add: checkBlockHeader_def)
  next
    case False
    show ?thesis
    proof (cases "previous p root")
      case None
      then show ?thesis using assms Cons False by (simp add: checkBlockHeader_def)
    next
      case (Some pr)
      obtain prev ppath where pr: "pr = (prev, ppath)" by (cases pr)
      show ?thesis
      proof (cases "node_type prev \<noteq> node_type blk")
        case True
        then show ?thesis using assms Cons False Some pr by (simp add: checkBlockHeader_def)
      next
        case same: False
        let ?r2 = "doFold blk p False (doFold prev ppath False root)"
        have "mergeNodes p ?r2 = Inr r"
          using assms Cons False Some pr same
          by (cases "mergeNodes p ?r2") (simp_all add: checkBlockHeader_def)
        then have "text_length r \<le> text_length ?r2" by (rule mergeNodes_shrinks)
        also have "\<dots> \<le> text_length (doFold prev ppath False root)" by (rule doFold_shrinks)
        also have "\<dots> \<le> text_length root" by (rule doFold_shrinks)
        finally show ?thesis .
      qed
    qed
  qed
qed

lemma header_checks_shrink:
  assumes inner: "shrinking inner"
    and run: "and_then (checkParent node p t root) (\<lambda>r1.
              and_then (checkIsFirst node p t r1) (\<lambda>r2.
              and_then (updateParentName node p r2) (inner p))) = Inr r'"
  shows "text_length r' \<le> text_length root"
proof (rule and_then_shrinks [OF run])
  show "text_length r \<le> text_length root" if "checkParent node p t root = Inr (ok, r)" for ok r
    using that by (rule checkParent_shrinks)
next
  fix r1 r1'
  assume a: "and_then (checkIsFirst node p t r1) (\<lambda>r2.
              and_then (updateParentName node p r2) (inner p)) = Inr r1'"
  show "text_length r1' \<le> text_length r1"
  proof (rule and_then_shrinks [OF a])
    show "text_length r \<le> text_length r1" if "checkIsFirst node p t r1 = Inr (ok, r)" for ok r
      using that by (rule checkIsFirst_shrinks)
  next
    fix r2 r2'
    assume b: "and_then (updateParentName node p r2) (inner p) = Inr r2'"
    show "text_length r2' \<le> text_length r2"
    proof (rule and_then_shrinks [OF b])
      show "text_length r \<le> text_length r2" if "updateParentName node p r2 = Inr (ok, r)" for ok r
        using that by (rule updateParentName_shrinks)
    next
      show "text_length y \<le> text_length x" if "inner p x = Inr y" for x y
        using inner that by (auto simp: shrinking_def)
    qed
  qed
qed

lemma normalizeNode_shrinking:
  assumes inner: "shrinking inner"
  shows "shrinking (normalizeNode inner)"
  unfolding shrinking_def
proof (intro allI impI)
  fix p root r'
  assume run: "normalizeNode inner p root = Inr r'"
  have inn: "text_length y \<le> text_length x" if "inner q x = Inr y" for q x y
    using inner that by (auto simp: shrinking_def)
  show "text_length r' \<le> text_length root"
  proof (cases "node_get root p")
    case None
    then show ?thesis using run by (simp add: normalizeNode_def)
  next
    case (Some node)
    consider (leaf) "isText node"
      | (editor) "\<not> isText node" "p = []"
      | (hpart) "\<not> isText node" "p \<noteq> []" "node_type node = Some ''hpart''"
      | (hscene) "\<not> isText node" "p \<noteq> []" "node_type node = Some ''hscene''"
      | (part) "\<not> isText node" "p \<noteq> []" "node_type node = Some ''part''"
      | (scene) "\<not> isText node" "p \<noteq> []" "node_type node = Some ''scene''"
      | (other) "\<not> isText node" "p \<noteq> []" "node_type node \<noteq> Some ''hpart''"
          "node_type node \<noteq> Some ''hscene''" "node_type node \<noteq> Some ''part''"
          "node_type node \<noteq> Some ''scene''"
      by blast
    then show ?thesis
    proof cases
      case leaf
      then show ?thesis using run Some by (simp add: normalizeNode_def inn)
    next
      case editor
      show ?thesis
      proof (cases "node_get root [0, 0]")
        case None
        then show ?thesis using run Some editor by (simp add: normalizeNode_def)
      next
        case first: (Some first)
        have "text_length (setNodes upd [0, 0] (unwrapNodes [0, 0] root)) \<le> text_length root" for upd
          by (rule order_trans [OF setNodes_shrinks unwrapNodes_shrinks])
        then show ?thesis using run Some editor first
          by (auto simp: normalizeNode_def inn setNodes_shrinks split: if_splits)
      qed
    next
      case hpart
      then have "and_then (checkParent node p ''part'' root) (\<lambda>r1.
              and_then (checkIsFirst node p ''part'' r1) (\<lambda>r2.
              and_then (updateParentName node p r2) (inner p))) = Inr r'"
        using run Some by (simp add: normalizeNode_def)
      then show ?thesis by (rule header_checks_shrink [OF inner])
    next
      case hscene
      then have "and_then (checkParent node p ''scene'' root) (\<lambda>r1.
              and_then (checkIsFirst node p ''scene'' r1) (\<lambda>r2.
              and_then (updateParentName node p r2) (inner p))) = Inr r'"
        using run Some by (simp add: normalizeNode_def)
      then show ?thesis by (rule header_checks_shrink [OF inner])
    next
      case part
      show ?thesis
      proof (cases "length p > 1")
        case True
        then show ?thesis using run Some part by (auto simp: normalizeNode_def liftNodes_shrinks)
      next
        case False
        then have a: "and_then (checkBlockHeader node p ''hpart'' root) (\<lambda>r1.
                 if length (node_children node) > 1
                 then and_then (checkFirstHeader (node_children node ! 1) (p @ [1]) ''hscene'' r1)
                        (inner p)
                 else inner p r1) = Inr r'"
          using run Some part by (simp add: normalizeNode_def)
        show ?thesis
        proof (rule and_then_shrinks [OF a])
          show "text_length r \<le> text_length root"
            if "checkBlockHeader node p ''hpart'' root = Inr (ok, r)" for ok r
            using that by (rule checkBlockHeader_shrinks)
        next
          fix r1 r1'
          assume b: "(if length (node_children node) > 1
                 then and_then (checkFirstHeader (node_children node ! 1) (p @ [1]) ''hscene'' r1)
                        (inner p)
                 else inner p r1) = Inr r1'"
          show "text_length r1' \<le> text_length r1"
          proof (cases "length (node_children node) > 1")
            case True
            then have c: "and_then (checkFirstHeader (node_children node ! 1) (p @ [1]) ''hscene'' r1)
                        (inner p) = Inr r1'" using b by simp
            show ?thesis
            proof (rule and_then_shrinks [OF c])
              show "text_length r \<le> text_length r1"
                if "checkFirstHeader (node_children node ! 1) (p @ [1]) ''hscene'' r1 = Inr (ok, r)"
                for ok r
                using that by (rule checkFirstHeader_shrinks)
            next
              show "text_length y \<le> text_length x" if "inner p x = Inr y" for x y
                using that by (rule inn)
            qed
          next
            case False
            then show ?thesis using b by (simp add: inn)
          qed
        qed
      qed
    next
      case scene
      show ?thesis
      proof (cases "length p < 2 \<or> length p > 2")
        case True
        then show ?thesis using run Some scene
          by (auto simp: normalizeNode_def liftNodes_shrinks wrapNodes_shrinks split: if_splits)
      next
        case False
        then have a: "and_then (checkBlockHeader node p ''hscene'' root) (inner p) = Inr r'"
          using run Some scene by (simp add: normalizeNode_def)
        show ?thesis
        proof (rule and_then_shrinks [OF a])
          show "text_length r \<le> text_length root"
            if "checkBlockHeader node p ''hscene'' root = Inr (ok, r)" for ok r
            using that by (rule checkBlockHeader_shrinks)
        next
          show "text_length y \<le> text_length x" if "inner p x = Inr y" for x y
            using that by (rule inn)
        qed
      qed
    next
      case other
      then have a: "and_then (checkParent node p ''scene'' root) (inner p) = Inr r'"
        using run Some by (simp add: normalizeNode_def)
      show ?thesis
      proof (rule and_then_shrinks [OF a])
        show "text_length r \<le> text_length root"
          if "checkParent node p ''scene'' root = Inr (ok, r)" for ok r
          using that by (rule checkParent_shrinks)
      next
        show "text_length y \<le> text_length x" if "inner p x = Inr y" for x y
          using that by (rule inn)
      qed
    qed
  qed
qed

lemma normalizes_shrinks:
  assumes "shrinking nn" and "normalizes nn root r"
  shows "text_length r \<le> text_length root"
  using assms(2)
proof (induction rule: normalizes.induct)
  case start
  then show ?case by simp
next
  case step
  then show ?case using assms(1) unfolding shrinking_def by (meson order_trans)
qed

text \<open>
  No rule of \<open>withFixNesting\<close> (and none of the host's normalizer) adds text to the
  tree, so the tree with the two headers "Old" and the paragraph "hi" (eight characters)
  is not reached from the lone scene (five characters), in whatever order the nodes are
  normalized.
\<close>

lemma spec_tree_unreachable:
  "\<not> normalizes (normalizeNode core_normalizeNode) lone_scene_tree part_old_scene_old_tree"
proof
  assume "normalizes (normalizeNode core_normalizeNode) lone_scene_tree part_old_scene_old_tree"
  then have "text_length part_old_scene_old_tree \<le> text_length lone_scene_tree"
    by (rule normalizes_shrinks [OF normalizeNode_shrinking [OF core_shrinking]])
  moreover have "text_length lone_scene_tree = 5" by code_simp
  moreover have "text_length part_old_scene_old_tree = 8" by code_simp
  ultimately show False by simp
qed

text \<open>The loop takes steps of \<open>normalizes\<close>, and its result is stable at every path.\<close>

lemma first_repair_Some:
  "first_repair nn root ps = Inr (Some r) \<Longrightarrow> \<exists>p. nn p root = Inr r"
  by (induction ps) (auto split: sum.splits if_splits)

lemma first_repair_None:
  "first_repair nn root ps = Inr None \<Longrightarrow> p \<in> set ps \<Longrightarrow> nn p root = Inr root"
  by (induction ps) (auto split: sum.splits if_splits)

lemma normalizes_prepend:
  assumes "normalizes nn r1 r" and "nn p r0 = Inr r1"
  shows "normalizes nn r0 r"
  using assms(1)
proof (induction rule: normalizes.induct)
  case start
  have "normalizes nn r0 r0" by (rule normalizes.start)
  then show ?case using assms(2) by (rule normalizes.step)
next
  case (step r q r')
  from step.IH step.hyps(2) show ?case by (rule normalizes.step)
qed

lemma normalize_normalizes:
  "normalize n nn root = Inr (Some r) \<Longrightarrow> normalizes nn root r"
proof (induction n arbitrary: root)
  case 0
  then show ?case by simp
next
  case (Suc n)
  show ?case
  proof (cases "first_repair nn root (rev (paths_of root))")
    case (Inl e)
    then show ?thesis using Suc.prems by simp
  next
    case (Inr x)
    show ?thesis
    proof (cases x)
      case None
      then have "r = root" using Suc.prems Inr by simp
      then show ?thesis by (simp add: normalizes.start)
    next
      case (Some r1)
      then have "normalize n nn r1 = Inr (Some r)" using Suc.prems Inr by simp
      then have a: "normalizes nn r1 r" by (rule Suc.IH)
      obtain p where "nn p root = Inr r1" using first_repair_Some Inr Some by blast
      with a show ?thesis by (rule normalizes_prepend)
    qed
  qed
qed

lemma paths_of_complete:
  "node_get n p = Some m \<Longrightarrow> p \<in> set (paths_of n)"
  "k < length ns \<Longrightarrow> node_get (ns ! k) q = Some m \<Longrightarrow> (i + k) # q \<in> set (paths_from i ns)"
proof (induction n and i ns arbitrary: p m and k q m rule: paths_of_paths_from.induct)
  case (1 a s)
  then show ?case by (cases p) auto
next
  case (2 a cs)
  show ?case
  proof (cases p)
    case Nil
    then show ?thesis by simp
  next
    case (Cons j q)
    then have "j < length cs" "node_get (cs ! j) q = Some m"
      using "2.prems" by (auto split: if_splits)
    then have "(0 + j) # q \<in> set (paths_from 0 cs)" by (rule "2.IH")
    then show ?thesis using Cons by simp
  qed
next
  case (3 i)
  then show ?case by simp
next
  case (4 i c cs)
  show ?case
  proof (cases k)
    case 0
    then have "q \<in> set (paths_of c)" using "4.prems" "4.IH"(1) by simp
    then show ?thesis using 0 by simp
  next
    case (Suc k')
    then have "k' < length cs" "node_get (cs ! k') q = Some m" using "4.prems" by simp_all
    then have "(Suc i + k') # q \<in> set (paths_from (Suc i) cs)" by (rule "4.IH"(2))
    then show ?thesis using Suc by simp
  qed
qed

lemma normalizeNode_no_node:
  "node_get root p = None \<Longrightarrow> normalizeNode inner p root = Inr root"
  by (simp add: normalizeNode_def)

lemma stable_everywhere:
  assumes "first_repair (normalizeNode inner) root (rev (paths_of root)) = Inr None"
  shows "normalizeNode inner p root = Inr root"
proof (cases "node_get root p")
  case None
  then show ?thesis by (rule normalizeNode_no_node)
next
  case (Some m)
  then have "p \<in> set (rev (paths_of root))" using paths_of_complete(1) by simp
  with assms show ?thesis by (rule first_repair_None)
qed

text \<open>
  Claim C2, as amended. Normalization of the editor that holds the lone top-level scene
  reaches its fixed point after eight rounds (and with any more fuel), and the fixed
  point is the tree \<open>{type:"part", name:"Old", children:[{type:"hpart", text:"Old"},
  {type:"scene", name:"hi", children:[{type:"hscene", text:"hi"}]}]}\<close>: the scene is
  wrapped in a part, the editor's rule unwraps the scene again and turns its header into
  the part header "Old", the paragraph is wrapped in a new scene, and the part's check of
  its second child turns the paragraph into that scene's header. The tree is reached by
  normalizing nodes, and normalizing any node of it changes nothing. Identifiers are
  left out, as in the claim: the rules of \<open>withFixNesting\<close> never read them.
\<close>

theorem normalize_lone_scene:
  "normalize (8 + k) (normalizeNode core_normalizeNode) lone_scene_tree
     = Inr (Some part_old_scene_hi_tree) \<and>
   normalizes (normalizeNode core_normalizeNode) lone_scene_tree part_old_scene_hi_tree \<and>
   normalizeNode core_normalizeNode p part_old_scene_hi_tree = Inr part_old_scene_hi_tree"
proof -
  have eight: "normalize 8 (normalizeNode core_normalizeNode) lone_scene_tree
      = Inr (Some part_old_scene_hi_tree)"
    by code_simp
  then have "normalize (8 + k) (normalizeNode core_normalizeNode) lone_scene_tree
      = Inr (Some part_old_scene_hi_tree)"
    by (rule normalize_more_fuel)
  moreover have "normalizes (normalizeNode core_normalizeNode) lone_scene_tree
      part_old_scene_hi_tree"
    using eight by (rule normalize_normalizes)
  moreover have "first_repair (normalizeNode core_normalizeNode) part_old_scene_hi_tree
     (rev (paths_of part_old_scene_hi_tree)) = Inr None"
    by code_simp
  then have "normalizeNode core_normalizeNode p part_old_scene_hi_tree
      = Inr part_old_scene_hi_tree"
    by (rule stable_everywhere)
  ultimately show ?thesis by simp
qed

theorem normalize_lone_scene_witness:
  "normalize 20 (normalizeNode core_normalizeNode) lone_scene_tree
     = Inr (Some part_old_scene_hi_tree) \<and>
   normalizeNode core_normalizeNode [0, 1] part_old_scene_hi_tree = Inr part_old_scene_hi_tree"
  using normalize_lone_scene [of 12 "[0, 1]"] by simp

text \<open>
  Claim C2 as stated fails: the fixed point that normalization reaches is not the tree
  with the part header "Old", the scene header "Old" and the paragraph "hi", and that
  tree is not reached in any order of normalization either.
\<close>

theorem normalize_lone_scene_not_spec_tree:
  "normalize 8 (normalizeNode core_normalizeNode) lone_scene_tree
     = Inr (Some part_old_scene_hi_tree) \<and>
   part_old_scene_hi_tree \<noteq> part_old_scene_old_tree \<and>
   normalize 8 (normalizeNode core_normalizeNode) lone_scene_tree
     \<noteq> Inr (Some part_old_scene_old_tree) \<and>
   \<not> normalizes (normalizeNode core_normalizeNode) lone_scene_tree part_old_scene_old_tree"
proof -
  have "normalize 8 (normalizeNode core_normalizeNode) lone_scene_tree
     = Inr (Some part_old_scene_hi_tree) \<and>
   part_old_scene_hi_tree \<noteq> part_old_scene_old_tree \<and>
   normalize 8 (normalizeNode core_normalizeNode) lone_scene_tree
     \<noteq> Inr (Some part_old_scene_old_tree)"
    by code_simp
  then show ?thesis using spec_tree_unreachable by simp
qed

end

